theory Spec2Isabelle
  imports Main
begin

section \<open>Python lists and the distance matrix\<close>

text \<open>
  The program is \<^verbatim>\<open>TSP.py\<close>: a nearest-neighbour heuristic \<^verbatim>\<open>tsp_greedy\<close> and a
  depth-first branch-and-bound search \<^verbatim>\<open>tsp_branch_and_bound\<close> over a distance matrix
  given as a list of rows. Locations and list positions are Python integers, so they are
  \<^typ>\<open>int\<close> here; distances are integers as in the data set of the script.

  Resources of the interpreter are not modelled: integers are unbounded, and the
  recursion of \<^verbatim>\<open>backtrack\<close>, which is as deep as the matrix has rows, is not cut off by
  a recursion limit.

  The exceptions the two functions can raise are \<^verbatim>\<open>IndexError\<close> (a list subscript out
  of range) and \<^verbatim>\<open>ValueError\<close> (\<^verbatim>\<open>min\<close> of an empty sequence). A call either raises
  (\<open>Inl\<close>) or returns (\<open>Inr\<close>).
\<close>

datatype error = IndexError | ValueError

text \<open>
  A subscript \<open>i\<close> of a list with \<open>len\<close> elements: \<open>0 \<le> i < len\<close> is the position
  \<open>i\<close>, \<open>-len \<le> i < 0\<close> is the position \<open>len + i\<close>, anything else raises.
\<close>

definition position :: "nat \<Rightarrow> int \<Rightarrow> nat option" where
  "position len i =
     (if 0 \<le> i \<and> i < int len then Some (nat i)
      else if - int len \<le> i \<and> i < 0 then Some (nat (int len + i))
      else None)"

definition getitem :: "'a list \<Rightarrow> int \<Rightarrow> error + 'a" where
  "getitem xs i =
     (case position (length xs) i of
        None \<Rightarrow> Inl IndexError
      | Some k \<Rightarrow> Inr (xs ! k))"

definition setitem :: "'a list \<Rightarrow> int \<Rightarrow> 'a \<Rightarrow> error + 'a list" where
  "setitem xs i v =
     (case position (length xs) i of
        None \<Rightarrow> Inl IndexError
      | Some k \<Rightarrow> Inr (xs[k := v]))"

text \<open>\<^verbatim>\<open>distance_matrix[i][j]\<close>: the row is fetched first, then the entry.\<close>

definition dist :: "int list list \<Rightarrow> int \<Rightarrow> int \<Rightarrow> error + int" where
  "dist distance_matrix i j =
     (case getitem distance_matrix i of
        Inl e \<Rightarrow> Inl e
      | Inr row \<Rightarrow> getitem row j)"

text \<open>\<^verbatim>\<open>range(n)\<close>, as the integers \<open>0, \<dots>, n - 1\<close> in ascending order.\<close>

definition py_range :: "nat \<Rightarrow> int list" where
  "py_range n = map int [0..<n]"

section \<open>The greedy heuristic\<close>

text \<open>
  The list comprehension
  \<^verbatim>\<open>[(distance_matrix[current][j], j) for j in range(n) if not visited[j]]\<close>,
  evaluated left to right; the first subscript that fails aborts it.
\<close>

fun candidates :: "int list list \<Rightarrow> bool list \<Rightarrow> int \<Rightarrow> int list \<Rightarrow> error + (int \<times> int) list" where
  "candidates distance_matrix visited current [] = Inr []"
| "candidates distance_matrix visited current (j # js) =
     (case getitem visited j of
        Inl e \<Rightarrow> Inl e
      | Inr seen \<Rightarrow>
          if \<not> seen then
            (case dist distance_matrix current j of
               Inl e \<Rightarrow> Inl e
             | Inr d \<Rightarrow>
                 (case candidates distance_matrix visited current js of
                    Inl e \<Rightarrow> Inl e
                  | Inr rest \<Rightarrow> Inr ((d, j) # rest)))
          else candidates distance_matrix visited current js)"

text \<open>
  \<^verbatim>\<open>min(pairs, key=lambda x: x[0])\<close>: Python keeps the first element and replaces it
  only by a later element whose key is strictly smaller; an empty argument raises
  \<^verbatim>\<open>ValueError\<close>.
\<close>

definition keep_smaller :: "int \<times> int \<Rightarrow> int \<times> int \<Rightarrow> int \<times> int" where
  "keep_smaller best item = (if fst item < fst best then item else best)"

fun min_by_key :: "(int \<times> int) list \<Rightarrow> error + (int \<times> int)" where
  "min_by_key [] = Inl ValueError"
| "min_by_key (x # xs) = Inr (foldl keep_smaller x xs)"

text \<open>
  The local variables of \<^verbatim>\<open>tsp_greedy\<close> that the loop updates.
\<close>

record greedy_state =
  g_path :: "int list"
  g_visited :: "bool list"
  g_total :: int
  g_current :: int

text \<open>One pass through the body of \<^verbatim>\<open>for _ in range(n - 1)\<close>.\<close>

definition greedy_step :: "int list list \<Rightarrow> greedy_state \<Rightarrow> error + greedy_state" where
  "greedy_step distance_matrix s =
     (case candidates distance_matrix (g_visited s) (g_current s)
             (py_range (length distance_matrix)) of
        Inl e \<Rightarrow> Inl e
      | Inr pairs \<Rightarrow>
          (case min_by_key pairs of
             Inl e \<Rightarrow> Inl e
           | Inr chosen \<Rightarrow>
               (let next_city = snd chosen in
                case dist distance_matrix (g_current s) next_city of
                  Inl e \<Rightarrow> Inl e
                | Inr d \<Rightarrow>
                    (case setitem (g_visited s) next_city True of
                       Inl e \<Rightarrow> Inl e
                     | Inr visited' \<Rightarrow>
                         Inr \<lparr> g_path = g_path s @ [next_city],
                               g_visited = visited',
                               g_total = g_total s + d,
                               g_current = next_city \<rparr>))))"

text \<open>The loop itself; the first argument counts the passes still to make.\<close>

fun greedy_loop :: "nat \<Rightarrow> int list list \<Rightarrow> greedy_state \<Rightarrow> error + greedy_state" where
  "greedy_loop 0 distance_matrix s = Inr s"
| "greedy_loop (Suc k) distance_matrix s =
     (case greedy_step distance_matrix s of
        Inl e \<Rightarrow> Inl e
      | Inr s' \<Rightarrow> greedy_loop k distance_matrix s')"

text \<open>
  \<^verbatim>\<open>tsp_greedy(distance_matrix, start)\<close>. \<^verbatim>\<open>range(n - 1)\<close> is empty for \<open>n = 0\<close>, which
  the truncating subtraction on \<^typ>\<open>nat\<close> gives as well.
\<close>

definition tsp_greedy :: "int list list \<Rightarrow> int \<Rightarrow> error + (int list \<times> int)" where
  "tsp_greedy distance_matrix start =
     (let n = length distance_matrix in
      case setitem (replicate n False) start True of
        Inl e \<Rightarrow> Inl e
      | Inr visited \<Rightarrow>
          (case greedy_loop (n - 1) distance_matrix
                  \<lparr> g_path = [start], g_visited = visited, g_total = 0, g_current = start \<rparr> of
             Inl e \<Rightarrow> Inl e
           | Inr s \<Rightarrow>
               (case dist distance_matrix (g_current s) start of
                  Inl e \<Rightarrow> Inl e
                | Inr d \<Rightarrow> Inr (g_path s @ [start], g_total s + d))))"

section \<open>Branch and bound\<close>

text \<open>
  \<^verbatim>\<open>best_distance\<close> starts as \<^verbatim>\<open>math.inf\<close> and is an integer once a tour has been
  found. \<open>below d b\<close> is Python's \<^verbatim>\<open>d < b\<close> for an integer \<open>d\<close>.
\<close>

datatype bound = Fin int | Inf

fun below :: "int \<Rightarrow> bound \<Rightarrow> bool" where
  "below d Inf = True"
| "below d (Fin b) = (d < b)"

text \<open>
  The mutable objects the nested function \<^verbatim>\<open>backtrack\<close> works on: the lists
  \<^verbatim>\<open>path\<close> and \<^verbatim>\<open>visited\<close>, which every recursive call shares and updates in place,
  and the two \<^verbatim>\<open>nonlocal\<close> variables.
\<close>

record search =
  path :: "int list"
  visited :: "bool list"
  best_distance :: bound
  best_path :: "int list"

text \<open>\<^verbatim>\<open>path.pop()\<close> removes the last element and raises on an empty list.\<close>

definition pop :: "'a list \<Rightarrow> error + 'a list" where
  "pop xs = (if xs = [] then Inl IndexError else Inr (butlast xs))"

text \<open>
  \<^verbatim>\<open>backtrack(path, visited, current_distance)\<close> returns the state it leaves behind.
  \<open>explore\<close> is its loop \<^verbatim>\<open>for next_city in range(n)\<close>, run over the cities still
  to be tried; \<^verbatim>\<open>current_city\<close> is \<^verbatim>\<open>path[-1]\<close>, read once on entry. After the
  recursive call has returned the loop goes on with the lists as that call left them,
  popped and unmarked.
\<close>

function backtrack :: "int list list \<Rightarrow> int \<Rightarrow> search \<Rightarrow> int \<Rightarrow> error + search"
  and explore :: "int list list \<Rightarrow> int \<Rightarrow> int \<Rightarrow> int list \<Rightarrow> search \<Rightarrow> int \<Rightarrow> error + search"
where
  "backtrack distance_matrix start s current_distance =
     (case getitem (path s) (- 1) of
        Inl e \<Rightarrow> Inl e
      | Inr current_city \<Rightarrow>
          if length (path s) = length distance_matrix then
            (case dist distance_matrix current_city start of
               Inl e \<Rightarrow> Inl e
             | Inr d \<Rightarrow>
                 (let total_distance = current_distance + d in
                  if below total_distance (best_distance s)
                  then Inr (s\<lparr>best_distance := Fin total_distance, best_path := path s\<rparr>)
                  else Inr s))
          else explore distance_matrix start current_city (py_range (length distance_matrix))
                 s current_distance)"
| "explore distance_matrix start current_city [] s current_distance = Inr s"
| "explore distance_matrix start current_city (next_city # rest) s current_distance =
     (case getitem (visited s) next_city of
        Inl e \<Rightarrow> Inl e
      | Inr seen \<Rightarrow>
          if \<not> seen then
            (case dist distance_matrix current_city next_city of
               Inl e \<Rightarrow> Inl e
             | Inr d \<Rightarrow>
                 (let projected_distance = current_distance + d in
                  if below projected_distance (best_distance s) then
                    (case setitem (visited s) next_city True of
                       Inl e \<Rightarrow> Inl e
                     | Inr marked \<Rightarrow>
                         (case backtrack distance_matrix start
                                 (s\<lparr>visited := marked, path := path s @ [next_city]\<rparr>)
                                 projected_distance of
                            Inl e \<Rightarrow> Inl e
                          | Inr s1 \<Rightarrow>
                              (case pop (path s1) of
                                 Inl e \<Rightarrow> Inl e
                               | Inr popped \<Rightarrow>
                                   (case setitem (visited s1) next_city False of
                                      Inl e \<Rightarrow> Inl e
                                    | Inr unmarked \<Rightarrow>
                                        explore distance_matrix start current_city rest
                                          (s1\<lparr>path := popped, visited := unmarked\<rparr>)
                                          current_distance))))
                  else explore distance_matrix start current_city rest s current_distance))
          else explore distance_matrix start current_city rest s current_distance)"
  by pat_completeness auto



subsection \<open>Termination of the search\<close>

text \<open>
  Every recursive call marks one more city, so the number of unmarked entries of
  \<^verbatim>\<open>visited\<close> decreases from a call to the calls it makes. For the rest of the loop
  this needs that a call which returns leaves \<^verbatim>\<open>visited\<close> as it found it, which is
  proved first, on the domain of the function.
\<close>

lemma getitem_Inr: "getitem xs i = Inr v \<Longrightarrow> \<exists>k. position (length xs) i = Some k \<and> xs ! k = v"
  by (auto simp: getitem_def split: option.splits)

lemma setitem_Inr: "setitem xs i v = Inr ys \<Longrightarrow> \<exists>k. position (length xs) i = Some k \<and> ys = xs[k := v]"
  by (auto simp: setitem_def split: option.splits)

lemma position_less: "position len i = Some k \<Longrightarrow> k < len"
  by (auto simp: position_def split: if_splits)

lemma mark_unmark:
  assumes "getitem xs i = Inr False" "setitem xs i True = Inr m" "setitem m i False = Inr u"
  shows "u = xs"
proof -
  from assms(1) obtain k where k: "position (length xs) i = Some k" and f: "\<not> xs ! k"
    using getitem_Inr by fastforce
  from assms(2) obtain k1 where "position (length xs) i = Some k1" and m: "m = xs[k1 := True]"
    using setitem_Inr by metis
  with k have k1: "k1 = k" by simp
  from assms(3) obtain k2 where "position (length m) i = Some k2" and u: "u = m[k2 := False]"
    using setitem_Inr by metis
  with k m have k2: "k2 = k" by simp
  have "xs[k := True, k := False] = xs[k := False]" by simp
  also from f have "\<dots> = xs" using list_update_id[of xs k] by simp
  finally show ?thesis by (simp add: u m k1 k2)
qed

definition unvisited_count :: "bool list \<Rightarrow> nat" where
  "unvisited_count vs = length (filter Not vs)"

lemma unvisited_count_update:
  "k < length vs \<Longrightarrow> \<not> vs ! k \<Longrightarrow> unvisited_count (vs[k := True]) < unvisited_count vs"
proof (induction vs arbitrary: k)
  case Nil
  then show ?case by simp
next
  case (Cons v vs)
  then show ?case by (cases k) (auto simp: unvisited_count_def)
qed

lemma mark_decreases:
  assumes "getitem vs i = Inr False" "setitem vs i True = Inr m"
  shows "unvisited_count m < unvisited_count vs"
proof -
  from assms(1) obtain k where k: "position (length vs) i = Some k" and f: "\<not> vs ! k"
    using getitem_Inr by fastforce
  from assms(2) obtain k1 where "position (length vs) i = Some k1" and m: "m = vs[k1 := True]"
    using setitem_Inr by metis
  with k have k1: "k1 = k" by simp
  from position_less[OF k] f show ?thesis unfolding m k1 by (rule unvisited_count_update)
qed
lemma pop_snoc: "pop (xs @ [x]) = Inr xs"
  by (simp add: pop_def)

lemma restore_dom:
  "backtrack_explore_dom (Inl (dm, start, s, cd)) \<Longrightarrow>
     backtrack dm start s cd = Inr s' \<Longrightarrow> visited s' = visited s \<and> path s' = path s"
  "backtrack_explore_dom (Inr (dm, start, cc, cs, s, cd)) \<Longrightarrow>
     explore dm start cc cs s cd = Inr s'' \<Longrightarrow> visited s'' = visited s \<and> path s'' = path s"
proof (induction dm start s cd and dm start cc cs s cd arbitrary: s' and s'' rule: backtrack_explore.pinduct)
  case (1 dm start s cd)
  from "1.prems" "1.hyps" obtain cc where cc: "getitem (path s) (- 1) = Inr cc"
    by (auto simp: backtrack.psimps split: sum.splits)
  show ?case
  proof (cases "length (path s) = length dm")
    case True
    with "1.prems" "1.hyps" cc show ?thesis
      by (auto simp: backtrack.psimps Let_def split: sum.splits if_splits)
  next
    case False
    with "1.prems" "1.hyps" cc have "explore dm start cc (py_range (length dm)) s cd = Inr s'"
      by (simp add: backtrack.psimps)
    with "1.IH"[OF cc False] show ?thesis by simp
  qed
next
  case (2 dm start cc s cd)
  then show ?case by (simp add: explore.psimps)
next
  case (3 dm start cc c rest s cd)
  note eq = "3.prems" and dom = "3.hyps"
  note sim = explore.psimps(2)[OF dom]
  from eq obtain seen where seen: "getitem (visited s) c = Inr seen"
    by (auto simp: sim split: sum.splits)
  show ?case
  proof (cases seen)
    case True
    with seen eq have "explore dm start cc rest s cd = Inr s''" by (simp add: sim)
    with "3.IH"(4)[OF seen] True show ?thesis by simp
  next
    case unseen: False
    from eq seen unseen obtain d where d: "dist dm cc c = Inr d"
      by (auto simp: sim split: sum.splits)
    show ?thesis
    proof (cases "below (cd + d) (best_distance s)")
      case False
      with seen unseen d eq have "explore dm start cc rest s cd = Inr s''" by (simp add: sim)
      with "3.IH"(3)[OF seen unseen d refl False] show ?thesis by simp
    next
      case True
      from eq seen unseen d True obtain marked where m: "setitem (visited s) c True = Inr marked"
        by (auto simp: sim split: sum.splits)
      from eq seen unseen d True m obtain s1 where
        s1: "backtrack dm start (s\<lparr>visited := marked, path := path s @ [c]\<rparr>) (cd + d) = Inr s1"
        by (auto simp: sim split: sum.splits)
      from "3.IH"(1)[OF seen unseen d refl True m s1]
      have r1: "visited s1 = marked" "path s1 = path s @ [c]" by simp_all
      from eq seen unseen d True m s1 r1 obtain unmarked where
        u: "setitem (visited s1) c False = Inr unmarked"
        by (auto simp: sim pop_snoc split: sum.splits)
      from eq seen unseen d True m s1 r1 u have
        rest: "explore dm start cc rest (s1\<lparr>path := path s, visited := unmarked\<rparr>) cd = Inr s''"
        by (simp add: sim pop_snoc)
      have p: "pop (path s1) = Inr (path s)" by (simp add: r1 pop_snoc)
      from "3.IH"(2)[OF seen unseen d refl True m s1 p u rest]
      have "visited s'' = unmarked \<and> path s'' = path s" by simp
      moreover from seen unseen have "getitem (visited s) c = Inr False" by simp
      from mark_unmark[OF this m u[unfolded r1]] have "unmarked = visited s" .
      ultimately show ?thesis by simp
    qed
  qed
qed

lemma backtrack_explore_total: "All backtrack_explore_dom"
proof (relation "measures [
    (\<lambda>x. case x of Inl (dm, start, s, cd) \<Rightarrow> unvisited_count (visited s)
                  | Inr (dm, start, cc, cs, s, cd) \<Rightarrow> unvisited_count (visited s)),
    (\<lambda>x. case x of Inl _ \<Rightarrow> 1 | Inr _ \<Rightarrow> 0),
    (\<lambda>x. case x of Inl _ \<Rightarrow> 0 | Inr (dm, start, cc, cs, s, cd) \<Rightarrow> length cs)]", goal_cases)
  case 1
  then show ?case by simp
next
  case (2 dm start s cd cc)
  show ?case by simp
next
  case (3 dm start cc c rest s cd seen d proj marked)
  from 3(1,2) have "getitem (visited s) c = Inr False" by simp
  from mark_decreases[OF this 3(6)] show ?case by simp
next
  case (4 dm start cc c rest s cd seen d proj marked s1 popped unmarked)
  from restore_dom(1)[OF 4(10) 4(7)] have r1: "visited s1 = marked" by simp
  from 4(1,2) have "getitem (visited s) c = Inr False" by simp
  from mark_unmark[OF this 4(6) 4(9)[unfolded r1]] have "unmarked = visited s" .
  then show ?case by simp
next
  case 5
  show ?case by simp
next
  case 6
  show ?case by simp
qed

termination backtrack
  by (rule backtrack_explore_total)

text \<open>
  The equation of \<open>backtrack\<close> applies to every call, so it is unfolded by hand only.
\<close>

declare backtrack.simps [simp del]

text \<open>\<^verbatim>\<open>tsp_branch_and_bound(distance_matrix, start)\<close>.\<close>

definition tsp_branch_and_bound :: "int list list \<Rightarrow> int \<Rightarrow> error + (int list \<times> bound)" where
  "tsp_branch_and_bound distance_matrix start =
     (let n = length distance_matrix in
      case setitem (replicate n False) start True of
        Inl e \<Rightarrow> Inl e
      | Inr visited0 \<Rightarrow>
          (case backtrack distance_matrix start
                  \<lparr> path = [start], visited = visited0, best_distance = Inf, best_path = [] \<rparr> 0 of
             Inl e \<Rightarrow> Inl e
           | Inr s \<Rightarrow> Inr (best_path s @ [start], best_distance s)))"

section \<open>Vocabulary of the properties\<close>

text \<open>
  The subscripts Python accepts for a list of \<open>n\<close> elements, and the position such a
  subscript denotes.
\<close>

definition valid_index :: "nat \<Rightarrow> int \<Rightarrow> bool" where
  "valid_index n i \<longleftrightarrow> - int n \<le> i \<and> i < int n"

definition place :: "nat \<Rightarrow> int \<Rightarrow> nat" where
  "place n i = nat (if i < 0 then int n + i else i)"

text \<open>The matrix is square when every row is as long as the list of rows.\<close>

definition square :: "int list list \<Rightarrow> bool" where
  "square distance_matrix \<longleftrightarrow>
     (\<forall>row \<in> set distance_matrix. length row = length distance_matrix)"

text \<open>The entry \<^verbatim>\<open>distance_matrix[i][j]\<close> for subscripts that are in range.\<close>

definition cell :: "int list list \<Rightarrow> int \<Rightarrow> int \<Rightarrow> int" where
  "cell distance_matrix i j =
     distance_matrix ! place (length distance_matrix) i ! place (length distance_matrix) j"

text \<open>
  The sum of the entries along consecutive pairs of a path; for a path of \<open>n + 1\<close> cities
  this is the sum of \<^verbatim>\<open>distance_matrix[path[k]][path[k+1]]\<close> for \<open>k\<close> in \<open>[0, n)\<close>
  (lemma \<open>path_sum_as_sum\<close>).
\<close>

fun path_sum :: "int list list \<Rightarrow> int list \<Rightarrow> int" where
  "path_sum dm (a # b # rest) = cell dm a b + path_sum dm (b # rest)"
| "path_sum dm [a] = 0"
| "path_sum dm [] = 0"

text \<open>
  \<open>marks n vis p\<close>: the list \<^verbatim>\<open>visited\<close> has \<open>n\<close> entries and is \<^verbatim>\<open>True\<close> exactly at
  the positions of the cities on the path \<open>p\<close>, which are valid subscripts and pairwise
  different positions.
\<close>

definition marks :: "nat \<Rightarrow> bool list \<Rightarrow> int list \<Rightarrow> bool" where
  "marks n vis p \<longleftrightarrow>
     length vis = n \<and> (\<forall>i \<in> set p. valid_index n i) \<and> distinct (map (place n) p)
     \<and> (\<forall>k < n. vis ! k = (k \<in> place n ` set p))"

text \<open>
  The choice the greedy heuristic makes for entry \<open>i\<close> of its path: \<open>p ! i\<close> is a city in
  \<open>[0, n)\<close> not among the positions of the first \<open>i\<close> entries, no other such city is
  nearer to the previous entry \<open>p ! (i - 1)\<close>, and among those equally near it has the
  lowest index.
\<close>

definition nearest_unvisited :: "int list list \<Rightarrow> int list \<Rightarrow> nat \<Rightarrow> bool" where
  "nearest_unvisited dm p i \<longleftrightarrow>
     (let n = length dm; current = p ! (i - 1); chosen = p ! i;
          seen = place n ` set (take i p)
      in 0 \<le> chosen \<and> chosen < int n \<and> nat chosen \<notin> seen
         \<and> (\<forall>j \<in> set (py_range n). nat j \<notin> seen \<longrightarrow>
               cell dm current chosen < cell dm current j
               \<or> (cell dm current chosen = cell dm current j \<and> chosen \<le> j)))"

text \<open>What the loop of \<^verbatim>\<open>tsp_greedy\<close> maintains.\<close>

definition greedy_inv :: "int list list \<Rightarrow> greedy_state \<Rightarrow> bool" where
  "greedy_inv dm s \<longleftrightarrow>
     marks (length dm) (g_visited s) (g_path s) \<and> g_path s \<noteq> [] \<and>
     g_current s = last (g_path s) \<and> g_total s = path_sum dm (g_path s)"

text \<open>The four locations of the concrete scenario in the specification.\<close>

definition four_cities :: "int list list" where
  "four_cities = [[0, 10, 15, 20], [10, 0, 35, 25], [15, 35, 0, 30], [20, 25, 30, 0]]"

text \<open>
  The order on \<^verbatim>\<open>best_distance\<close> values, with \<^verbatim>\<open>math.inf\<close> on top.
\<close>

fun bound_le :: "bound \<Rightarrow> bound \<Rightarrow> bool" where
  "bound_le b Inf = True"
| "bound_le Inf (Fin y) = False"
| "bound_le (Fin x) (Fin y) = (x \<le> y)"

text \<open>
  A complete tour without its closing entry: \<open>n\<close> cities beginning with \<open>start\<close>, all
  valid subscripts at pairwise different positions; the cities after the first come from
  \<^verbatim>\<open>range(n)\<close> and are not negative.
\<close>

definition complete_tour :: "nat \<Rightarrow> int \<Rightarrow> int list \<Rightarrow> bool" where
  "complete_tour n start t \<longleftrightarrow>
     length t = n \<and> t \<noteq> [] \<and> hd t = start \<and> (\<forall>c \<in> set (tl t). 0 \<le> c)
     \<and> (\<forall>i \<in> set t. valid_index n i) \<and> distinct (map (place n) t)"

text \<open>
  The record of the best tour is consistent: either nothing has been found yet, or
  \<^verbatim>\<open>best_path\<close> is a complete tour and \<^verbatim>\<open>best_distance\<close> is its length, closing edge
  included.
\<close>

definition best_ok :: "int list list \<Rightarrow> int \<Rightarrow> search \<Rightarrow> bool" where
  "best_ok dm start s \<longleftrightarrow>
     best_distance s = Inf \<or>
     (complete_tour (length dm) start (best_path s)
      \<and> best_distance s = Fin (path_sum dm (best_path s @ [start])))"

text \<open>
  What the search maintains between its steps: \<^verbatim>\<open>visited\<close> marks exactly the cities
  of \<^verbatim>\<open>path\<close>, the path begins with \<open>start\<close>, and the record of the best tour is
  consistent.
\<close>

definition search_inv :: "int list list \<Rightarrow> int \<Rightarrow> search \<Rightarrow> bool" where
  "search_inv dm start s \<longleftrightarrow>
     marks (length dm) (visited s) (path s) \<and> path s \<noteq> [] \<and> hd (path s) = start
     \<and> (\<forall>c \<in> set (tl (path s)). 0 \<le> c) \<and> best_ok dm start s"

text \<open>
  All entries of the matrix are non-negative.
\<close>

definition nonneg :: "int list list \<Rightarrow> bool" where
  "nonneg dm \<longleftrightarrow> (\<forall>row \<in> set dm. \<forall>x \<in> set row. 0 \<le> x)"

text \<open>
  \<open>covered dm start b p\<close>: no complete tour that begins with the path \<open>p\<close> is shorter
  than the bound \<open>b\<close>.
\<close>

definition covered :: "int list list \<Rightarrow> int \<Rightarrow> bound \<Rightarrow> int list \<Rightarrow> bool" where
  "covered dm start b p \<longleftrightarrow>
     (\<forall>t. complete_tour (length dm) start t \<and> take (length p) t = p
          \<longrightarrow> bound_le b (Fin (path_sum dm (t @ [start]))))"

text \<open>
  A returned path is a closed tour: \<open>n + 1\<close> entries, the first and the last are
  \<open>start\<close>, and the first \<open>n\<close> contain every index in \<open>[0, n)\<close> exactly once.
\<close>

definition closed_tour :: "nat \<Rightarrow> int \<Rightarrow> int list \<Rightarrow> bool" where
  "closed_tour n start p \<longleftrightarrow>
     length p = n + 1 \<and> p ! 0 = start \<and> p ! n = start
     \<and> distinct (take n p) \<and> set (take n p) = {0..<int n}"

text \<open>
  The permutations of the indices other than \<open>start\<close>: the lists that contain every
  index in \<open>[0, n)\<close> except \<open>start\<close> exactly once.
\<close>

definition other_permutations :: "nat \<Rightarrow> int \<Rightarrow> int list set" where
  "other_permutations n start = {perm. distinct perm \<and> set perm = {0..<int n} - {start}}"

text \<open>
  The length of the closed tour that leaves \<open>start\<close>, visits the cities in the order of
  \<open>perm\<close> and returns to \<open>start\<close>.
\<close>

definition closed_tour_length :: "int list list \<Rightarrow> int \<Rightarrow> int list \<Rightarrow> int" where
  "closed_tour_length dm start perm = path_sum dm (start # perm @ [start])"

text \<open>
  The path returned for a negative start: \<open>n + 1\<close> entries, the first and the last are
  the negative \<open>start\<close> itself, and the entries between them contain exactly once every
  index in \<open>[0, n)\<close> other than \<open>n + start\<close>, the position the negative subscript denotes.
\<close>

definition wrapped_tour :: "nat \<Rightarrow> int \<Rightarrow> int list \<Rightarrow> bool" where
  "wrapped_tour n start p \<longleftrightarrow>
     length p = n + 1 \<and> p ! 0 = start \<and> p ! n = start
     \<and> distinct (tl (take n p)) \<and> set (tl (take n p)) = {0..<int n} - {int n + start}"

text \<open>
  The recursive calls a call of \<^verbatim>\<open>backtrack\<close> makes. The call on \<open>(s, current_distance)\<close>
  that is not at a complete path runs its loop over \<^verbatim>\<open>range(n)\<close>; when the loop has gone
  through the cities \<open>earlier\<close> and stands in the state \<open>sb\<close> at a city \<open>next_city\<close> that is
  unmarked and passes the pruning test, it marks the city, appends it to the path and
  calls \<^verbatim>\<open>backtrack\<close> on the result (\<open>explore_append\<close>: the loop over a list is the loop
  over its first part followed by the loop over the rest).
\<close>

inductive recursive_call :: "int list list \<Rightarrow> int \<Rightarrow> search \<times> int \<Rightarrow> search \<times> int \<Rightarrow> bool"
  for distance_matrix start
where
  "getitem (path s) (- 1) = Inr current_city \<Longrightarrow>
   length (path s) \<noteq> length distance_matrix \<Longrightarrow>
   py_range (length distance_matrix) = earlier @ next_city # later \<Longrightarrow>
   explore distance_matrix start current_city earlier s current_distance = Inr sb \<Longrightarrow>
   getitem (visited sb) next_city = Inr False \<Longrightarrow>
   dist distance_matrix current_city next_city = Inr d \<Longrightarrow>
   below (current_distance + d) (best_distance sb) \<Longrightarrow>
   setitem (visited sb) next_city True = Inr marked \<Longrightarrow>
   recursive_call distance_matrix start (s, current_distance)
     (sb\<lparr>visited := marked, path := path sb @ [next_city]\<rparr>, current_distance + d)"

text \<open>
  The state on which \<^verbatim>\<open>tsp_branch_and_bound\<close> calls \<^verbatim>\<open>backtrack\<close> for a start that is
  a valid subscript (\<open>tsp_branch_and_bound_initial\<close>).
\<close>

definition initial_search :: "nat \<Rightarrow> int \<Rightarrow> search" where
  "initial_search n start =
     \<lparr> path = [start], visited = (replicate n False)[place n start := True],
       best_distance = Inf, best_path = [] \<rparr>"

section \<open>Validation of the start index\<close>

lemma position_None: "i < - int len \<or> int len \<le> i \<Longrightarrow> position len i = None"
  by (auto simp: position_def)

text \<open>
  Claim C7, as the code has it: neither function validates its arguments. The first
  statement that uses \<open>start\<close> is \<^verbatim>\<open>visited[start] = True\<close>, so both functions raise
  Python's \<^verbatim>\<open>IndexError\<close> whenever \<open>start < -n\<close> or \<open>start \<ge> n\<close>, before any search
  step; for the empty matrix (\<open>n = 0\<close>) that is every \<open>start\<close>, and the exception is the
  same \<^verbatim>\<open>IndexError\<close>.
\<close>

theorem start_out_of_range_raises:
  assumes "start < - int (length distance_matrix) \<or> int (length distance_matrix) \<le> start"
  shows "tsp_greedy distance_matrix start = Inl IndexError
       \<and> tsp_branch_and_bound distance_matrix start = Inl IndexError"
proof -
  from assms have "setitem (replicate (length distance_matrix) False) start True = Inl IndexError"
    by (simp add: setitem_def position_None)
  then show ?thesis by (simp add: tsp_greedy_def tsp_branch_and_bound_def)
qed

text \<open>The empty matrix with \<open>start = 0\<close> is such an input.\<close>

theorem start_out_of_range_raises_witness:
  "((0::int) < - int (length ([] :: int list list)) \<or> int (length ([] :: int list list)) \<le> 0)
   \<and> tsp_greedy [] 0 = Inl IndexError \<and> tsp_branch_and_bound [] 0 = Inl IndexError"
  using start_out_of_range_raises [of 0 "[]"] by simp

text \<open>
  Claim C7 as stated fails: \<open>start = -1\<close> is outside \<open>[0, n)\<close> for the one-city matrix,
  and both functions return a tour.
\<close>

theorem negative_start_is_accepted:
  "\<not> (0 \<le> (- 1 :: int) \<and> (- 1 :: int) < int (length [[0 :: int]]))
   \<and> tsp_greedy [[0]] (- 1) = Inr ([- 1, - 1], 0)
   \<and> tsp_branch_and_bound [[0]] (- 1) = Inr ([- 1, - 1], Fin 0)"
  by code_simp

section \<open>Subscripts in range\<close>

lemma position_place: "valid_index n i \<Longrightarrow> position n i = Some (place n i)"
  by (auto simp: valid_index_def position_def place_def)

lemma place_less: "valid_index n i \<Longrightarrow> place n i < n"
  by (auto simp: valid_index_def place_def)

lemma place_nat: "0 \<le> i \<Longrightarrow> place n i = nat i"
  by (simp add: place_def)

lemma valid_index_range: "0 \<le> i \<Longrightarrow> i < int n \<Longrightarrow> valid_index n i"
  by (simp add: valid_index_def)

lemma getitem_valid: "valid_index (length xs) i \<Longrightarrow> getitem xs i = Inr (xs ! place (length xs) i)"
  by (simp add: getitem_def position_place)

lemma setitem_valid: "valid_index (length xs) i \<Longrightarrow> setitem xs i v = Inr (xs[place (length xs) i := v])"
  by (simp add: setitem_def position_place)

lemma dist_cell:
  assumes "square dm" "valid_index (length dm) i" "valid_index (length dm) j"
  shows "dist dm i j = Inr (cell dm i j)"
proof -
  have "dm ! place (length dm) i \<in> set dm" using assms(2) by (simp add: place_less)
  with assms(1) have "length (dm ! place (length dm) i) = length dm" by (simp add: square_def)
  with assms show ?thesis by (simp add: dist_def cell_def getitem_valid)
qed

lemma unvisited_exists:
  assumes "marks n vis p" "length p < n"
  shows "\<exists>k < n. \<not> vis ! k"
proof (rule ccontr)
  assume "\<not> (\<exists>k < n. \<not> vis ! k)"
  with assms(1) have "{0..<n} \<subseteq> place n ` set p" by (auto simp: marks_def)
  then have "card {0..<n} \<le> card (place n ` set p)" by (intro card_mono) auto
  also have "\<dots> \<le> card (set p)" by (rule card_image_le) simp
  also have "\<dots> \<le> length p" by (rule card_length)
  finally show False using assms(2) by simp
qed

lemma marks_snoc:
  assumes "marks n vis p" "0 \<le> c" "c < int n" "\<not> vis ! nat c"
  shows "marks n (vis[nat c := True]) (p @ [c])"
proof -
  from assms(2,3) have v: "valid_index n c" and pl: "place n c = nat c" and lt: "nat c < n"
    by (simp_all add: valid_index_def place_def)
  from assms(1,4) lt have notin: "nat c \<notin> place n ` set p" by (auto simp: marks_def)
  from assms(1) have len: "length vis = n" by (simp add: marks_def)
  have "\<forall>k < n. vis[nat c := True] ! k = (k \<in> place n ` set (p @ [c]))"
  proof (intro allI impI)
    fix k assume "k < n"
    with assms(1) len show "vis[nat c := True] ! k = (k \<in> place n ` set (p @ [c]))"
      by (cases "k = nat c") (auto simp: marks_def pl)
  qed
  with assms(1) v notin len show ?thesis by (auto simp: marks_def pl)
qed

section \<open>The greedy heuristic builds a nearest-neighbour tour\<close>

lemma candidates_valid:
  assumes "square dm" "length vis = length dm" "valid_index (length dm) cur"
    and "\<forall>j \<in> set js. 0 \<le> j \<and> j < int (length dm)"
  shows "candidates dm vis cur js =
           Inr (map (\<lambda>j. (cell dm cur j, j)) (filter (\<lambda>j. \<not> vis ! nat j) js))"
  using assms(4)
proof (induction js)
  case Nil
  then show ?case by simp
next
  case (Cons j js)
  then have j: "0 \<le> j" "j < int (length dm)" by simp_all
  then have vj: "valid_index (length dm) j" by (simp add: valid_index_def)
  with assms(2) j have g: "getitem vis j = Inr (vis ! nat j)"
    by (simp add: getitem_valid place_nat)
  from assms(1,3) vj have d: "dist dm cur j = Inr (cell dm cur j)" by (rule dist_cell)
  from Cons show ?case by (simp add: g d)
qed

lemma keep_smaller_first:
  assumes "sorted_wrt (<) (map snd (b # xs))"
  shows "foldl keep_smaller b xs \<in> set (b # xs) \<and>
         (\<forall>y \<in> set (b # xs). fst (foldl keep_smaller b xs) < fst y
             \<or> (fst (foldl keep_smaller b xs) = fst y \<and> snd (foldl keep_smaller b xs) \<le> snd y))"
  using assms
proof (induction xs arbitrary: b)
  case Nil
  then show ?case by simp
next
  case (Cons x xs)
  let ?b' = "keep_smaller b x"
  let ?r = "foldl keep_smaller ?b' xs"
  have b': "?b' = x \<and> fst x < fst b \<or> ?b' = b \<and> fst b \<le> fst x"
    by (auto simp: keep_smaller_def)
  from Cons.prems have sx: "sorted_wrt (<) (map snd (x # xs))" and sb: "sorted_wrt (<) (map snd (b # xs))"
    and bx: "snd b < snd x"
    by auto
  from b' sx sb have "sorted_wrt (<) (map snd (?b' # xs))" by auto
  from Cons.IH[OF this] have mem: "?r \<in> set (?b' # xs)"
    and least: "\<forall>y \<in> set (?b' # xs). fst ?r < fst y \<or> (fst ?r = fst y \<and> snd ?r \<le> snd y)"
    by blast+
  from least have lb': "fst ?r < fst ?b' \<or> (fst ?r = fst ?b' \<and> snd ?r \<le> snd ?b')" by simp
  from mem b' have m: "?r \<in> set (b # x # xs)" by auto
  from lb' b' bx have lb: "fst ?r < fst b \<or> (fst ?r = fst b \<and> snd ?r \<le> snd b)"
    and lx: "fst ?r < fst x \<or> (fst ?r = fst x \<and> snd ?r \<le> snd x)" by auto
  from least lb lx have "\<forall>y \<in> set (b # x # xs). fst ?r < fst y \<or> (fst ?r = fst y \<and> snd ?r \<le> snd y)"
    by auto
  with m show ?case by simp
qed

lemma path_sum_snoc: "p \<noteq> [] \<Longrightarrow> path_sum dm (p @ [c]) = path_sum dm p + cell dm (last p) c"
  by (induction dm p rule: path_sum.induct) auto

lemma nearest_unvisited_append:
  "0 < i \<Longrightarrow> i < length p \<Longrightarrow> nearest_unvisited dm (p @ q) i = nearest_unvisited dm p i"
  by (simp add: nearest_unvisited_def nth_append)

lemma sorted_range: "sorted_wrt (<) (py_range n)"
  by (simp add: py_range_def sorted_wrt_map)

lemma set_range: "set (py_range n) = {j. 0 \<le> j \<and> j < int n}"
  unfolding py_range_def
proof (intro set_eqI iffI)
  fix j assume "j \<in> set (map int [0..<n])"
  then show "j \<in> {j. 0 \<le> j \<and> j < int n}" by auto
next
  fix j assume "j \<in> {j. 0 \<le> j \<and> j < int n}"
  then have "j = int (nat j)" "nat j < n" by auto
  then show "j \<in> set (map int [0..<n])" by (metis atLeast0LessThan image_eqI lessThan_iff set_map set_upt)
qed

lemma greedy_step_valid:
  assumes sq: "square dm"
    and m: "marks (length dm) (g_visited s) (g_path s)"
    and cur: "valid_index (length dm) (g_current s)"
    and lt: "length (g_path s) < length dm"
  shows "\<exists>c. greedy_step dm s =
              Inr \<lparr> g_path = g_path s @ [c], g_visited = (g_visited s)[nat c := True],
                    g_total = g_total s + cell dm (g_current s) c, g_current = c \<rparr>
            \<and> 0 \<le> c \<and> c < int (length dm) \<and> \<not> g_visited s ! nat c
            \<and> (\<forall>j \<in> set (py_range (length dm)). \<not> g_visited s ! nat j \<longrightarrow>
                  cell dm (g_current s) c < cell dm (g_current s) j
                  \<or> (cell dm (g_current s) c = cell dm (g_current s) j \<and> c \<le> j))"
proof -
  let ?n = "length dm"
  let ?vis = "g_visited s"
  let ?f = "\<lambda>j. (cell dm (g_current s) j, j)"
  let ?js = "filter (\<lambda>j. \<not> ?vis ! nat j) (py_range ?n)"
  from m have len: "length ?vis = ?n" by (simp add: marks_def)
  have cand: "candidates dm ?vis (g_current s) (py_range ?n) = Inr (map ?f ?js)"
    using sq len cur by (intro candidates_valid) (auto simp: set_range)
  from unvisited_exists[OF m lt] obtain k where k: "k < ?n" "\<not> ?vis ! k" by blast
  then have "int k \<in> set ?js" by (simp add: set_range)
  then obtain j0 rest where js: "?js = j0 # rest" by (cases ?js) auto
  have srt: "sorted_wrt (<) ?js" by (intro sorted_wrt_filter sorted_range)
  define r where "r = foldl keep_smaller (?f j0) (map ?f rest)"
  have "map snd (?f j0 # map ?f rest) = ?js" by (simp add: js comp_def)
  with srt have "sorted_wrt (<) (map snd (?f j0 # map ?f rest))" by simp
  from keep_smaller_first[OF this]
  have mem: "r \<in> set (?f j0 # map ?f rest)"
    and least: "\<forall>y \<in> set (?f j0 # map ?f rest). fst r < fst y \<or> (fst r = fst y \<and> snd r \<le> snd y)"
    unfolding r_def by blast+
  have setf: "set (?f j0 # map ?f rest) = ?f ` set ?js" by (simp add: js)
  from mem setf obtain c where c: "c \<in> set ?js" "r = ?f c" by auto
  then have c3: "0 \<le> c" "c < int ?n" "\<not> ?vis ! nat c" by (auto simp: set_range)
  have minr: "min_by_key (map ?f ?js) = Inr r" by (simp add: js r_def)
  from c3 have vc: "valid_index ?n c" by (simp add: valid_index_def)
  have d: "dist dm (g_current s) c = Inr (cell dm (g_current s) c)"
    using sq cur vc by (rule dist_cell)
  have st: "setitem ?vis c True = Inr (?vis[nat c := True])"
    using vc c3 len by (simp add: setitem_valid place_nat)
  have step: "greedy_step dm s =
              Inr \<lparr> g_path = g_path s @ [c], g_visited = ?vis[nat c := True],
                    g_total = g_total s + cell dm (g_current s) c, g_current = c \<rparr>"
    by (simp add: greedy_step_def cand minr c(2) d st)
  have "\<forall>j \<in> set (py_range ?n). \<not> ?vis ! nat j \<longrightarrow>
                  cell dm (g_current s) c < cell dm (g_current s) j
                  \<or> (cell dm (g_current s) c = cell dm (g_current s) j \<and> c \<le> j)"
  proof (intro ballI impI)
    fix j assume "j \<in> set (py_range ?n)" "\<not> ?vis ! nat j"
    then have "?f j \<in> ?f ` set ?js" by simp
    with least setf have "fst r < fst (?f j) \<or> (fst r = fst (?f j) \<and> snd r \<le> snd (?f j))"
      by blast
    then show "cell dm (g_current s) c < cell dm (g_current s) j
                  \<or> (cell dm (g_current s) c = cell dm (g_current s) j \<and> c \<le> j)"
      by (simp add: c(2))
  qed
  with step c3 show ?thesis by blast
qed

lemma greedy_step_inv:
  assumes sq: "square dm" and inv: "greedy_inv dm s" and lt: "length (g_path s) < length dm"
  shows "\<exists>s1 c. greedy_step dm s = Inr s1 \<and> greedy_inv dm s1 \<and> g_path s1 = g_path s @ [c]
            \<and> nearest_unvisited dm (g_path s1) (length (g_path s))"
proof -
  let ?n = "length dm"
  from inv have m: "marks ?n (g_visited s) (g_path s)" and ne: "g_path s \<noteq> []"
    and cur: "g_current s = last (g_path s)" and tot: "g_total s = path_sum dm (g_path s)"
    by (simp_all add: greedy_inv_def)
  from m ne cur have vcur: "valid_index ?n (g_current s)" by (simp add: marks_def)
  from greedy_step_valid[OF sq m vcur lt] obtain c where
    step: "greedy_step dm s =
              Inr \<lparr> g_path = g_path s @ [c], g_visited = (g_visited s)[nat c := True],
                    g_total = g_total s + cell dm (g_current s) c, g_current = c \<rparr>"
    and c: "0 \<le> c" "c < int ?n" "\<not> g_visited s ! nat c"
    and least: "\<forall>j \<in> set (py_range ?n). \<not> g_visited s ! nat j \<longrightarrow>
                  cell dm (g_current s) c < cell dm (g_current s) j
                  \<or> (cell dm (g_current s) c = cell dm (g_current s) j \<and> c \<le> j)"
    by blast
  let ?s1 = "\<lparr> g_path = g_path s @ [c], g_visited = (g_visited s)[nat c := True],
                    g_total = g_total s + cell dm (g_current s) c, g_current = c \<rparr>"
  have inv1: "greedy_inv dm ?s1"
    using marks_snoc[OF m c] ne cur tot by (simp add: greedy_inv_def path_sum_snoc)
  have seen: "\<And>j. 0 \<le> j \<Longrightarrow> j < int ?n \<Longrightarrow>
                (nat j \<notin> place ?n ` set (g_path s)) = (\<not> g_visited s ! nat j)"
    using m by (simp add: marks_def)
  have prev: "(g_path s @ [c]) ! (length (g_path s) - 1) = g_current s"
    using ne cur by (simp add: nth_append last_conv_nth)
  have "nearest_unvisited dm (g_path s @ [c]) (length (g_path s))"
    unfolding nearest_unvisited_def Let_def prev
    using c least seen by (simp add: set_range)
  with step inv1 show ?thesis by auto
qed

lemma greedy_loop_valid:
  assumes sq: "square dm"
  shows "greedy_inv dm s \<Longrightarrow> length (g_path s) + k \<le> length dm \<Longrightarrow>
         \<exists>s'. greedy_loop k dm s = Inr s' \<and> greedy_inv dm s'
            \<and> length (g_path s') = length (g_path s) + k
            \<and> take (length (g_path s)) (g_path s') = g_path s
            \<and> (\<forall>i. length (g_path s) \<le> i \<and> i < length (g_path s')
                   \<longrightarrow> nearest_unvisited dm (g_path s') i)"
proof (induction k arbitrary: s)
  case 0
  then show ?case by auto
next
  case (Suc k)
  from Suc.prems have lt: "length (g_path s) < length dm" by simp
  from greedy_step_inv[OF sq Suc.prems(1) lt] obtain s1 c where
    step: "greedy_step dm s = Inr s1" and inv1: "greedy_inv dm s1"
    and p1: "g_path s1 = g_path s @ [c]"
    and near: "nearest_unvisited dm (g_path s1) (length (g_path s))"
    by blast
  from Suc.prems p1 have "length (g_path s1) + k \<le> length dm" by simp
  from Suc.IH[OF inv1 this] obtain s' where
    loop: "greedy_loop k dm s1 = Inr s'" and inv': "greedy_inv dm s'"
    and len: "length (g_path s') = length (g_path s1) + k"
    and pre: "take (length (g_path s1)) (g_path s') = g_path s1"
    and rest: "\<forall>i. length (g_path s1) \<le> i \<and> i < length (g_path s') \<longrightarrow> nearest_unvisited dm (g_path s') i"
    by blast
  from pre obtain q where q: "g_path s' = g_path s1 @ q"
    by (metis append_take_drop_id)
  from Suc.prems(1) have ne: "g_path s \<noteq> []" by (simp add: greedy_inv_def)
  have first: "nearest_unvisited dm (g_path s') (length (g_path s))"
    unfolding q using near ne p1 by (subst nearest_unvisited_append) simp_all
  have "\<forall>i. length (g_path s) \<le> i \<and> i < length (g_path s') \<longrightarrow> nearest_unvisited dm (g_path s') i"
  proof (intro allI impI)
    fix i assume i: "length (g_path s) \<le> i \<and> i < length (g_path s')"
    show "nearest_unvisited dm (g_path s') i"
    proof (cases "i = length (g_path s)")
      case True
      with first show ?thesis by simp
    next
      case False
      with i p1 have "length (g_path s1) \<le> i" by simp
      with rest i show ?thesis by simp
    qed
  qed
  moreover have "take (length (g_path s)) (g_path s') = g_path s" by (simp add: q p1)
  moreover have "length (g_path s') = length (g_path s) + Suc k" using len p1 by simp
  ultimately show ?case using step loop inv' by simp
qed

lemma path_sum_as_sum:
  "path_sum dm p = (\<Sum>k < length p - 1. cell dm (p ! k) (p ! (k + 1)))"
proof (induction dm p rule: path_sum.induct)
  case (1 dm a b rest)
  have "(\<Sum>k < Suc (length rest). cell dm ((a # b # rest) ! k) ((a # b # rest) ! (k + 1)))
        = cell dm a b + (\<Sum>k < length rest. cell dm ((b # rest) ! k) ((b # rest) ! (k + 1)))"
    by (subst sum.lessThan_Suc_shift) simp
  with 1 show ?case by simp
qed simp_all

lemma marks_initial:
  assumes "valid_index n start"
  shows "marks n ((replicate n False)[place n start := True]) [start]"
proof -
  have "\<forall>k < n. (replicate n False)[place n start := True] ! k = (k \<in> place n ` set [start])"
    using place_less[OF assms] by (auto simp: nth_list_update)
  with assms show ?thesis by (simp add: marks_def)
qed

lemma marks_complete:
  assumes "marks n vis p" "length p = n"
  shows "place n ` set p = {0..<n}"
proof -
  from assms(1) have sub: "place n ` set p \<subseteq> {0..<n}"
    by (auto simp: marks_def place_less)
  from assms(1) have "distinct (map (place n) p)" by (simp add: marks_def)
  then have "card (set (map (place n) p)) = length (map (place n) p)" by (rule distinct_card)
  with assms(2) have "card (place n ` set p) = card {0..<n}" by simp
  with sub show ?thesis by (intro card_subset_eq) auto
qed

lemma tsp_greedy_tour:
  assumes sq: "square dm" and st: "valid_index (length dm) start"
  shows "\<exists>p. tsp_greedy dm start = Inr (p @ [start], path_sum dm (p @ [start]))
            \<and> length p = length dm \<and> hd p = start
            \<and> distinct (map (place (length dm)) p)
            \<and> place (length dm) ` set p = {0..<length dm}
            \<and> (\<forall>i. 1 \<le> i \<and> i < length dm \<longrightarrow> nearest_unvisited dm p i)"
proof -
  let ?n = "length dm"
  let ?s0 = "\<lparr> g_path = [start], g_visited = (replicate ?n False)[place ?n start := True],
               g_total = 0, g_current = start \<rparr>"
  from st have pos: "0 < ?n" by (auto simp: valid_index_def)
  have set0: "setitem (replicate ?n False) start True = Inr ((replicate ?n False)[place ?n start := True])"
    using st by (simp add: setitem_valid)
  have inv0: "greedy_inv dm ?s0" using marks_initial[OF st] by (simp add: greedy_inv_def)
  from pos have "length (g_path ?s0) + (?n - 1) \<le> ?n" by simp
  from greedy_loop_valid[OF sq inv0 this] obtain s' where
    loop: "greedy_loop (?n - 1) dm ?s0 = Inr s'" and inv: "greedy_inv dm s'"
    and len: "length (g_path s') = length (g_path ?s0) + (?n - 1)"
    and pre: "take (length (g_path ?s0)) (g_path s') = g_path ?s0"
    and near: "\<forall>i. length (g_path ?s0) \<le> i \<and> i < length (g_path s') \<longrightarrow> nearest_unvisited dm (g_path s') i"
    by blast
  let ?p = "g_path s'"
  from len pos have lenp: "length ?p = ?n" by simp
  from inv have m: "marks ?n (g_visited s') ?p" and ne: "?p \<noteq> []"
    and cur: "g_current s' = last ?p" and tot: "g_total s' = path_sum dm ?p"
    by (simp_all add: greedy_inv_def)
  from m ne cur have vcur: "valid_index ?n (g_current s')" by (simp add: marks_def)
  have d: "dist dm (g_current s') start = Inr (cell dm (last ?p) start)"
    using dist_cell[OF sq vcur st] cur by simp
  have res: "tsp_greedy dm start = Inr (?p @ [start], path_sum dm (?p @ [start]))"
    using loop by (simp add: tsp_greedy_def Let_def set0 d tot path_sum_snoc[OF ne])
  from pre ne have hd: "hd ?p = start" by (cases ?p) simp_all
  from m have dis: "distinct (map (place ?n) ?p)" by (simp add: marks_def)
  from near lenp have n2: "\<forall>i. 1 \<le> i \<and> i < ?n \<longrightarrow> nearest_unvisited dm ?p i" by simp
  from res lenp hd dis marks_complete[OF m lenp] n2 show ?thesis by blast
qed

lemma square_four_cities: "square four_cities"
  by (simp add: square_def four_cities_def)

lemma length_four_cities: "length four_cities = 4"
  by (simp add: four_cities_def)

text \<open>
  Claim C6. For a square matrix and a start that Python accepts as a subscript,
  \<^verbatim>\<open>tsp_greedy\<close> returns a path of \<open>n + 1\<close> entries: \<open>start\<close>, then \<open>n - 1\<close> chosen cities,
  then \<open>start\<close> again. Each chosen city is, among the cities not yet on the path, one
  nearest to the entry before it, and the lowest-indexed of those equally near
  (\<open>nearest_unvisited\<close>); the total is the sum of the \<open>n\<close> edges along the path, the
  closing edge back to \<open>start\<close> included.
\<close>

theorem greedy_selects_nearest_unvisited:
  assumes "square distance_matrix" and "valid_index (length distance_matrix) start"
  shows "\<exists>path total.
           tsp_greedy distance_matrix start = Inr (path, total)
         \<and> length path = length distance_matrix + 1
         \<and> path ! 0 = start
         \<and> (\<forall>i. 1 \<le> i \<and> i < length distance_matrix \<longrightarrow> nearest_unvisited distance_matrix path i)
         \<and> path ! length distance_matrix = start
         \<and> total = (\<Sum>k < length distance_matrix. cell distance_matrix (path ! k) (path ! (k + 1)))"
proof -
  let ?n = "length distance_matrix"
  from tsp_greedy_tour[OF assms] obtain p where
    res: "tsp_greedy distance_matrix start = Inr (p @ [start], path_sum distance_matrix (p @ [start]))"
    and len: "length p = ?n" and hd: "hd p = start"
    and near: "\<forall>i. 1 \<le> i \<and> i < ?n \<longrightarrow> nearest_unvisited distance_matrix p i"
    by blast
  from assms(2) have pos: "0 < ?n" by (auto simp: valid_index_def)
  with len have ne: "p \<noteq> []" by auto
  with hd have first: "(p @ [start]) ! 0 = start" by (cases p) simp_all
  have last: "(p @ [start]) ! ?n = start" using len by (simp add: nth_append)
  have near': "\<forall>i. 1 \<le> i \<and> i < ?n \<longrightarrow> nearest_unvisited distance_matrix (p @ [start]) i"
    using near len by (simp add: nearest_unvisited_append)
  have tot: "path_sum distance_matrix (p @ [start])
             = (\<Sum>k < ?n. cell distance_matrix ((p @ [start]) ! k) ((p @ [start]) ! (k + 1)))"
    using len by (simp add: path_sum_as_sum)
  from res len first last near' tot show ?thesis by auto
qed

text \<open>The theorem applies to the four-city scenario with \<open>start = 0\<close>.\<close>

theorem greedy_selects_nearest_unvisited_witness:
  "square four_cities \<and> valid_index (length four_cities) 0
   \<and> (\<exists>path total.
           tsp_greedy four_cities 0 = Inr (path, total)
         \<and> length path = length four_cities + 1
         \<and> path ! 0 = 0
         \<and> (\<forall>i. 1 \<le> i \<and> i < length four_cities \<longrightarrow> nearest_unvisited four_cities path i)
         \<and> path ! length four_cities = 0
         \<and> total = (\<Sum>k < length four_cities. cell four_cities (path ! k) (path ! (k + 1))))"
proof -
  have v: "valid_index (length four_cities) 0" by (simp add: valid_index_def length_four_cities)
  from greedy_selects_nearest_unvisited[OF square_four_cities v] square_four_cities v
  show ?thesis by blast
qed

section \<open>Correctness of the branch-and-bound search\<close>

text \<open>
  A call of \<^verbatim>\<open>backtrack\<close> that returns leaves \<^verbatim>\<open>path\<close> and \<^verbatim>\<open>visited\<close> as it
  found them; so does the loop.
\<close>

lemma backtrack_restores:
  "backtrack dm start s cd = Inr s' \<Longrightarrow> visited s' = visited s \<and> path s' = path s"
  using restore_dom(1) backtrack_explore_total by blast

lemma explore_restores:
  "explore dm start cc cs s cd = Inr s' \<Longrightarrow> visited s' = visited s \<and> path s' = path s"
  using restore_dom(2) backtrack_explore_total by blast

lemma bound_le_refl: "bound_le b b"
  by (cases b) simp_all

lemma bound_le_trans: "bound_le a b \<Longrightarrow> bound_le b c \<Longrightarrow> bound_le a c"
  by (cases a; cases b; cases c) simp_all

lemma bound_le_Fin: "bound_le b (Fin y) \<Longrightarrow> \<exists>x. b = Fin x \<and> x \<le> y"
  by (cases b) simp_all

lemma not_below: "\<not> below d b \<Longrightarrow> bound_le b (Fin d)"
  by (cases b) simp_all

lemma below_le: "below d b \<Longrightarrow> bound_le (Fin d) b"
  by (cases b) simp_all

lemma covered_mono: "covered dm start b p \<Longrightarrow> bound_le b' b \<Longrightarrow> covered dm start b' p"
  unfolding covered_def using bound_le_trans by blast

lemma cell_nonneg:
  assumes "nonneg dm" "square dm" "valid_index (length dm) i" "valid_index (length dm) j"
  shows "0 \<le> cell dm i j"
proof -
  let ?row = "dm ! place (length dm) i"
  have r: "?row \<in> set dm" using assms(3) by (simp add: place_less)
  with assms(2) have "length ?row = length dm" by (simp add: square_def)
  with assms(4) have "?row ! place (length dm) j \<in> set ?row" by (simp add: place_less)
  with r assms(1) show ?thesis by (auto simp: nonneg_def cell_def)
qed

lemma path_sum_append:
  "p \<noteq> [] \<Longrightarrow> path_sum dm (p @ q) = path_sum dm p + path_sum dm (last p # q)"
  by (induction dm p rule: path_sum.induct) auto

lemma path_sum_nonneg:
  assumes "nonneg dm" "square dm"
  shows "\<forall>i \<in> set p. valid_index (length dm) i \<Longrightarrow> 0 \<le> path_sum dm p"
proof (induction p rule: induct_list012)
  case (3 a b rest)
  then have "0 \<le> cell dm a b" using cell_nonneg[OF assms] by simp
  with 3 show ?case by simp
qed simp_all

lemma path_sum_append_le:
  assumes "nonneg dm" "square dm" "p \<noteq> []" "\<forall>i \<in> set (p @ q). valid_index (length dm) i"
  shows "path_sum dm p \<le> path_sum dm (p @ q)"
proof -
  from assms(3,4) have "\<forall>i \<in> set (last p # q). valid_index (length dm) i" by auto
  from path_sum_nonneg[OF assms(1,2) this] show ?thesis
    by (simp add: path_sum_append[OF assms(3)])
qed

lemma getitem_last: "xs \<noteq> [] \<Longrightarrow> getitem xs (- 1) = Inr (last xs)"
  by (cases xs rule: rev_cases) (auto simp: getitem_def position_def)

lemma marks_length_le:
  assumes "marks n vis p"
  shows "length p \<le> n"
proof -
  from assms have d: "distinct (map (place n) p)" and sub: "place n ` set p \<subseteq> {0..<n}"
    by (auto simp: marks_def place_less)
  from d have "card (set (map (place n) p)) = length (map (place n) p)" by (rule distinct_card)
  then have "length p = card (place n ` set p)" by simp
  also from sub have "\<dots> \<le> card {0..<n}" by (intro card_mono) auto
  finally show ?thesis by simp
qed

lemma best_ok_fields:
  "best_distance s' = best_distance s \<Longrightarrow> best_path s' = best_path s \<Longrightarrow>
   best_ok dm start s' = best_ok dm start s"
  by (simp add: best_ok_def)

lemma inv_complete:
  assumes "search_inv dm start s" "length (path s) = length dm"
  shows "complete_tour (length dm) start (path s)"
  using assms by (simp add: search_inv_def complete_tour_def marks_def)

lemma inv_last_valid: "search_inv dm start s \<Longrightarrow> valid_index (length dm) (last (path s))"
  by (simp add: search_inv_def marks_def)

lemma inv_child:
  assumes "search_inv dm start s" "0 \<le> c" "c < int (length dm)" "\<not> visited s ! nat c"
  shows "search_inv dm start (s\<lparr>visited := (visited s)[nat c := True], path := path s @ [c]\<rparr>)"
proof -
  from assms(1) have m: "marks (length dm) (visited s) (path s)" by (simp add: search_inv_def)
  from marks_snoc[OF m assms(2,3,4)] assms(1,2) show ?thesis
    by (auto simp: search_inv_def best_ok_def)
qed

lemma no_tour_through_visited:
  assumes "marks n vis p" "0 \<le> c" "c < int n" "vis ! nat c"
    and "complete_tour n start t" "take (length (p @ [c])) t = p @ [c]"
  shows False
proof -
  from assms(1,2,3,4) have "place n c \<in> place n ` set p" by (simp add: marks_def place_nat)
  then have "\<not> distinct (map (place n) (p @ [c]))" by auto
  moreover from assms(5) have "distinct (map (place n) t)" by (simp add: complete_tour_def)
  then have "distinct (map (place n) (take (length (p @ [c])) t))"
    by (simp add: take_map[symmetric] del: length_append)
  ultimately show False using assms(6) by (simp del: length_append)
qed

lemma covered_complete:
  assumes "length p = length dm"
  shows "covered dm start (Fin (path_sum dm (p @ [start]))) p"
  using assms by (auto simp: covered_def complete_tour_def)

lemma covered_pruned:
  assumes nn: "nonneg dm" and sq: "square dm" and st: "valid_index (length dm) start"
    and ne: "p \<noteq> []" and b: "bound_le b (Fin (path_sum dm p))"
  shows "covered dm start b p"
  unfolding covered_def
proof (intro allI impI)
  fix t assume t: "complete_tour (length dm) start t \<and> take (length p) t = p"
  then have eq: "t @ [start] = p @ (drop (length p) t @ [start])"
    by (metis append_assoc append_take_drop_id)
  from t st have "\<forall>i \<in> set (p @ (drop (length p) t @ [start])). valid_index (length dm) i"
    unfolding eq[symmetric] by (auto simp: complete_tour_def)
  from path_sum_append_le[OF nn sq ne this] have "path_sum dm p \<le> path_sum dm (t @ [start])"
    by (simp add: eq)
  then have "bound_le (Fin (path_sum dm p)) (Fin (path_sum dm (t @ [start])))" by simp
  with b show "bound_le b (Fin (path_sum dm (t @ [start])))" by (rule bound_le_trans)
qed

lemma covered_children:
  assumes inv: "search_inv dm start s" and lt: "length (path s) < length dm"
    and ch: "\<forall>c \<in> set (py_range (length dm)). covered dm start b (path s @ [c])"
  shows "covered dm start b (path s)"
  unfolding covered_def
proof (intro allI impI)
  fix t assume t: "complete_tour (length dm) start t \<and> take (length (path s)) t = path s"
  let ?k = "length (path s)"
  from t lt have k: "?k < length t" by (simp add: complete_tour_def)
  from inv have ne: "path s \<noteq> []" by (simp add: search_inv_def)
  then have "0 < ?k" by simp
  with k have "t ! ?k \<in> set (tl t)"
    by (metis Suc_pred length_tl less_diff_conv nth_mem nth_tl add.commute plus_1_eq_Suc)
  with t have nonn: "0 \<le> t ! ?k" by (simp add: complete_tour_def)
  from t k have "valid_index (length dm) (t ! ?k)" by (simp add: complete_tour_def)
  with nonn have "t ! ?k \<in> set (py_range (length dm))" by (simp add: set_range valid_index_def)
  with ch have c: "covered dm start b (path s @ [t ! ?k])" by blast
  from t k have "take (length (path s @ [t ! ?k])) t = path s @ [t ! ?k]"
    by (simp add: take_Suc_conv_app_nth)
  with c t show "bound_le b (Fin (path_sum dm (t @ [start])))"
    unfolding covered_def by blast
qed

lemma bound_le_not_Inf: "bound_le b' b \<Longrightarrow> b \<noteq> Inf \<Longrightarrow> b' \<noteq> Inf"
  by (cases b; cases b') simp_all

lemma unmark_unmarked: "\<not> vs ! k \<Longrightarrow> vs[k := False] = vs"
  using list_update_id[of vs k] by simp

text \<open>
  The main invariant of the search, by induction along its recursion. From a consistent
  state a call returns; it restores \<^verbatim>\<open>path\<close> and \<^verbatim>\<open>visited\<close>; the best tour on record
  stays consistent and never gets longer; \<^verbatim>\<open>backtrack\<close> always leaves some tour on
  record; and if the matrix is non-negative, no tour through the current path is shorter
  than the recorded best. The last part is where pruning is justified: a pruned child
  has a projected length that is at least the best on record, and every completion is at
  least as long as the projection.
\<close>

lemma search_correct:
  "square dm \<Longrightarrow> valid_index (length dm) start \<Longrightarrow> search_inv dm start s \<Longrightarrow>
   cd = path_sum dm (path s) \<Longrightarrow>
     \<exists>s'. backtrack dm start s cd = Inr s' \<and> path s' = path s \<and> visited s' = visited s
        \<and> best_ok dm start s' \<and> bound_le (best_distance s') (best_distance s)
        \<and> best_distance s' \<noteq> Inf
        \<and> (nonneg dm \<longrightarrow> covered dm start (best_distance s') (path s))"
  "square dm \<Longrightarrow> valid_index (length dm) start \<Longrightarrow> search_inv dm start s \<Longrightarrow>
   cd = path_sum dm (path s) \<Longrightarrow> cc = last (path s) \<Longrightarrow>
   \<forall>c \<in> set cs. 0 \<le> c \<and> c < int (length dm) \<Longrightarrow>
     \<exists>s'. explore dm start cc cs s cd = Inr s' \<and> path s' = path s \<and> visited s' = visited s
        \<and> best_ok dm start s' \<and> bound_le (best_distance s') (best_distance s)
        \<and> ((\<exists>c \<in> set cs. \<not> visited s ! nat c) \<longrightarrow> best_distance s' \<noteq> Inf)
        \<and> (nonneg dm \<longrightarrow> (\<forall>c \<in> set cs. covered dm start (best_distance s') (path s @ [c])))"
proof (induction dm start s cd and dm start cc cs s cd rule: backtrack_explore.induct)
  case (1 dm start s cd)
  note sq = "1.prems"(1) and st = "1.prems"(2) and inv = "1.prems"(3) and cd = "1.prems"(4)
  let ?n = "length dm"
  from inv have ne: "path s \<noteq> []" and m: "marks ?n (visited s) (path s)"
    and bok: "best_ok dm start s"
    by (simp_all add: search_inv_def)
  have last: "getitem (path s) (- 1) = Inr (last (path s))" using ne by (rule getitem_last)
  show ?case
  proof (cases "length (path s) = ?n")
    case True
    have d: "dist dm (last (path s)) start = Inr (cell dm (last (path s)) start)"
      using sq inv_last_valid[OF inv] st by (rule dist_cell)
    let ?total = "path_sum dm (path s @ [start])"
    have tot: "cd + cell dm (last (path s)) start = ?total"
      using ne cd by (simp add: path_sum_snoc)
    have cov: "covered dm start (Fin ?total) (path s)" using True by (rule covered_complete)
    show ?thesis
    proof (cases "below ?total (best_distance s)")
      case b: True
      let ?s' = "s\<lparr>best_distance := Fin ?total, best_path := path s\<rparr>"
      have "backtrack dm start s cd = Inr ?s'"
        using True b by (subst backtrack.simps) (simp add: last d tot Let_def)
      moreover have "best_ok dm start ?s'"
        using inv_complete[OF inv True] by (simp add: best_ok_def)
      moreover have "bound_le (best_distance ?s') (best_distance s)"
        using below_le[OF b] by simp
      ultimately show ?thesis using cov by simp
    next
      case b: False
      have "backtrack dm start s cd = Inr s"
        using True b by (subst backtrack.simps) (simp add: last d tot Let_def)
      moreover from b have ni: "best_distance s \<noteq> Inf" by auto
      moreover have "covered dm start (best_distance s) (path s)"
        using cov not_below[OF b] by (rule covered_mono)
      ultimately show ?thesis using bok by (simp add: bound_le_refl)
    qed
  next
    case False
    with marks_length_le[OF m] have lt: "length (path s) < ?n" by simp
    have r: "\<forall>c \<in> set (py_range ?n). 0 \<le> c \<and> c < int ?n" by (simp add: set_range)
    from "1.IH"[OF last False sq st inv cd refl r] obtain s' where
      ex: "explore dm start (last (path s)) (py_range ?n) s cd = Inr s'"
      and p: "path s' = path s" and v: "visited s' = visited s"
      and ok: "best_ok dm start s'" and le: "bound_le (best_distance s') (best_distance s)"
      and found: "(\<exists>c \<in> set (py_range ?n). \<not> visited s ! nat c) \<longrightarrow> best_distance s' \<noteq> Inf"
      and cov: "nonneg dm \<longrightarrow> (\<forall>c \<in> set (py_range ?n). covered dm start (best_distance s') (path s @ [c]))"
      by blast
    have bt: "backtrack dm start s cd = Inr s'"
      using False by (subst backtrack.simps) (simp add: last ex)
    from unvisited_exists[OF m lt] obtain k where k: "k < ?n" "\<not> visited s ! k" by blast
    then have "int k \<in> set (py_range ?n)" "\<not> visited s ! nat (int k)" by (simp_all add: set_range)
    with found have ni: "best_distance s' \<noteq> Inf" by blast
    have "nonneg dm \<longrightarrow> covered dm start (best_distance s') (path s)"
      using cov covered_children[OF inv lt] by blast
    with bt p v ok le ni show ?thesis by simp
  qed
next
  case (2 dm start cc s cd)
  then show ?case by (simp add: search_inv_def bound_le_refl)
next
  case (3 dm start cc c rest s cd)
  note sq = "3.prems"(1) and st = "3.prems"(2) and inv = "3.prems"(3) and cd = "3.prems"(4)
    and cc = "3.prems"(5) and cs = "3.prems"(6)
  let ?n = "length dm"
  from inv have ne: "path s \<noteq> []" and m: "marks ?n (visited s) (path s)"
    and bok: "best_ok dm start s"
    by (simp_all add: search_inv_def)
  from m have len: "length (visited s) = ?n" by (simp add: marks_def)
  from cs have c: "0 \<le> c" "c < int ?n" and rest: "\<forall>c \<in> set rest. 0 \<le> c \<and> c < int ?n" by simp_all
  then have vc: "valid_index ?n c" by (simp add: valid_index_def)
  have seen: "getitem (visited s) c = Inr (visited s ! nat c)"
    using vc c len by (simp add: getitem_valid place_nat)
  show ?case
  proof (cases "visited s ! nat c")
    case True
    have nn: "\<not> \<not> visited s ! nat c" using True by simp
    from "3.IH"(4)[OF seen nn sq st inv cd cc rest] obtain s' where
      ex: "explore dm start cc rest s cd = Inr s'"
      and p: "path s' = path s" and v: "visited s' = visited s"
      and ok: "best_ok dm start s'" and le: "bound_le (best_distance s') (best_distance s)"
      and found: "(\<exists>c \<in> set rest. \<not> visited s ! nat c) \<longrightarrow> best_distance s' \<noteq> Inf"
      and cov: "nonneg dm \<longrightarrow> (\<forall>c \<in> set rest. covered dm start (best_distance s') (path s @ [c]))"
      by blast
    have e: "explore dm start cc (c # rest) s cd = Inr s'" using True by (simp add: seen ex)
    have "covered dm start (best_distance s') (path s @ [c])"
      unfolding covered_def using no_tour_through_visited[OF m c True] by blast
    with cov have cov': "nonneg dm \<longrightarrow> (\<forall>c' \<in> set (c # rest). covered dm start (best_distance s') (path s @ [c']))"
      by simp
    from found True have found': "(\<exists>c' \<in> set (c # rest). \<not> visited s ! nat c') \<longrightarrow> best_distance s' \<noteq> Inf"
      by simp
    from e p v ok le found' cov' show ?thesis by blast
  next
    case unseen: False
    have d: "dist dm cc c = Inr (cell dm cc c)"
      using sq inv_last_valid[OF inv] vc unfolding cc by (rule dist_cell)
    let ?proj = "cd + cell dm cc c"
    have proj: "?proj = path_sum dm (path s @ [c])" using ne cd cc by (simp add: path_sum_snoc)
    show ?thesis
    proof (cases "below ?proj (best_distance s)")
      case pruned: False
      from "3.IH"(3)[OF seen unseen d refl pruned sq st inv cd cc rest] obtain s' where
        ex: "explore dm start cc rest s cd = Inr s'"
        and p: "path s' = path s" and v: "visited s' = visited s"
        and ok: "best_ok dm start s'" and le: "bound_le (best_distance s') (best_distance s)"
        and cov: "nonneg dm \<longrightarrow> (\<forall>c \<in> set rest. covered dm start (best_distance s') (path s @ [c]))"
        by blast
      have e: "explore dm start cc (c # rest) s cd = Inr s'"
        using unseen pruned by (simp add: seen d ex Let_def)
      from pruned have "best_distance s \<noteq> Inf" by auto
      with le have ni: "best_distance s' \<noteq> Inf" by (rule bound_le_not_Inf)
      have b: "bound_le (best_distance s') (Fin (path_sum dm (path s @ [c])))"
        using le not_below[OF pruned] unfolding proj by (rule bound_le_trans)
      have "nonneg dm \<longrightarrow> covered dm start (best_distance s') (path s @ [c])"
        using covered_pruned[OF _ sq st _ b] by simp
      with cov have cov': "nonneg dm \<longrightarrow> (\<forall>c' \<in> set (c # rest). covered dm start (best_distance s') (path s @ [c']))"
        by simp
      from e p v ok le ni cov' show ?thesis by blast
    next
      case descend: True
      let ?marked = "(visited s)[nat c := True]"
      let ?child = "s\<lparr>visited := ?marked, path := path s @ [c]\<rparr>"
      have mk: "setitem (visited s) c True = Inr ?marked"
        using vc c len by (simp add: setitem_valid place_nat)
      have invc: "search_inv dm start ?child" using inv c unseen by (rule inv_child)
      have cdc: "?proj = path_sum dm (path ?child)" using proj by simp
      from "3.IH"(1)[OF seen unseen d refl descend mk sq st invc cdc] obtain s1 where
        bt: "backtrack dm start ?child ?proj = Inr s1"
        and p1: "path s1 = path s @ [c]" and v1: "visited s1 = ?marked"
        and ok1: "best_ok dm start s1" and le1: "bound_le (best_distance s1) (best_distance s)"
        and ni1: "best_distance s1 \<noteq> Inf"
        and cov1: "nonneg dm \<longrightarrow> covered dm start (best_distance s1) (path s @ [c])"
        by auto
      have pp: "pop (path s1) = Inr (path s)" by (simp add: p1 pop_snoc)
      have um: "setitem (visited s1) c False = Inr (visited s)"
        using vc c len unseen by (simp add: v1 setitem_valid place_nat unmark_unmarked)
      let ?s2 = "s1\<lparr>path := path s, visited := visited s\<rparr>"
      have inv2: "search_inv dm start ?s2"
        using inv ok1 by (simp add: search_inv_def best_ok_def)
      have cd2: "cd = path_sum dm (path ?s2)" using cd by simp
      have cc2: "cc = last (path ?s2)" using cc by simp
      from "3.IH"(2)[OF seen unseen d refl descend mk bt pp um sq st inv2 cd2 cc2 rest] obtain s' where
        ex: "explore dm start cc rest ?s2 cd = Inr s'"
        and p: "path s' = path s" and v: "visited s' = visited s"
        and ok: "best_ok dm start s'" and le: "bound_le (best_distance s') (best_distance s1)"
        and cov: "nonneg dm \<longrightarrow> (\<forall>c \<in> set rest. covered dm start (best_distance s') (path s @ [c]))"
        by auto
      have e: "explore dm start cc (c # rest) s cd = Inr s'"
        using unseen descend by (simp add: seen d mk bt pp um ex Let_def)
      from le le1 have le': "bound_le (best_distance s') (best_distance s)" by (rule bound_le_trans)
      from le ni1 have ni: "best_distance s' \<noteq> Inf" by (rule bound_le_not_Inf)
      from cov1 le have "nonneg dm \<longrightarrow> covered dm start (best_distance s') (path s @ [c])"
        using covered_mono by blast
      with cov have cov': "nonneg dm \<longrightarrow> (\<forall>c' \<in> set (c # rest). covered dm start (best_distance s') (path s @ [c']))"
        by simp
      from e p v ok le' ni cov' show ?thesis by blast
    qed
  qed
qed

lemma tsp_branch_and_bound_tour:
  assumes sq: "square dm" and st: "valid_index (length dm) start"
  shows "\<exists>t. tsp_branch_and_bound dm start = Inr (t @ [start], Fin (path_sum dm (t @ [start])))
            \<and> complete_tour (length dm) start t
            \<and> (nonneg dm \<longrightarrow> (\<forall>t'. complete_tour (length dm) start t'
                   \<longrightarrow> path_sum dm (t @ [start]) \<le> path_sum dm (t' @ [start])))"
proof -
  let ?n = "length dm"
  let ?s0 = "\<lparr> path = [start], visited = (replicate ?n False)[place ?n start := True],
               best_distance = Inf, best_path = [] \<rparr>"
  have set0: "setitem (replicate ?n False) start True = Inr ((replicate ?n False)[place ?n start := True])"
    using st by (simp add: setitem_valid)
  have inv0: "search_inv dm start ?s0"
    using marks_initial[OF st] by (simp add: search_inv_def best_ok_def)
  have cd0: "0 = path_sum dm (path ?s0)" by simp
  from search_correct(1)[OF sq st inv0 cd0] obtain s' where
    bt: "backtrack dm start ?s0 0 = Inr s'"
    and ok: "best_ok dm start s'" and ni: "best_distance s' \<noteq> Inf"
    and cov: "nonneg dm \<longrightarrow> covered dm start (best_distance s') [start]"
    by auto
  let ?t = "best_path s'"
  from ok ni have ct: "complete_tour ?n start ?t"
    and bd: "best_distance s' = Fin (path_sum dm (?t @ [start]))"
    by (simp_all add: best_ok_def)
  have res: "tsp_branch_and_bound dm start = Inr (?t @ [start], Fin (path_sum dm (?t @ [start])))"
    by (simp add: tsp_branch_and_bound_def Let_def set0 bt bd)
  have "nonneg dm \<longrightarrow> (\<forall>t'. complete_tour ?n start t'
                   \<longrightarrow> path_sum dm (?t @ [start]) \<le> path_sum dm (t' @ [start]))"
  proof (intro impI allI)
    fix t' assume nn: "nonneg dm" and t': "complete_tour ?n start t'"
    then have "take (length [start]) t' = [start]"
      by (cases t') (simp_all add: complete_tour_def)
    with cov nn t' have "bound_le (best_distance s') (Fin (path_sum dm (t' @ [start])))"
      unfolding covered_def by blast
    then show "path_sum dm (?t @ [start]) \<le> path_sum dm (t' @ [start])" by (simp add: bd)
  qed
  with res ct show ?thesis by blast
qed

lemma nearest_unvisited_range:
  "nearest_unvisited dm p i \<Longrightarrow> 0 \<le> p ! i \<and> p ! i < int (length dm)"
  by (simp add: nearest_unvisited_def Let_def)

lemma tsp_greedy_complete:
  assumes sq: "square dm" and st: "valid_index (length dm) start"
  shows "\<exists>t. tsp_greedy dm start = Inr (t @ [start], path_sum dm (t @ [start]))
            \<and> complete_tour (length dm) start t"
proof -
  let ?n = "length dm"
  from tsp_greedy_tour[OF sq st] obtain p where
    res: "tsp_greedy dm start = Inr (p @ [start], path_sum dm (p @ [start]))"
    and len: "length p = ?n" and hd: "hd p = start"
    and dis: "distinct (map (place ?n) p)"
    and near: "\<forall>i. 1 \<le> i \<and> i < ?n \<longrightarrow> nearest_unvisited dm p i"
    by blast
  from st have pos: "0 < ?n" by (auto simp: valid_index_def)
  with len have ne: "p \<noteq> []" by auto
  have tl: "\<forall>c \<in> set (tl p). 0 \<le> c \<and> c < int ?n"
  proof
    fix c assume "c \<in> set (tl p)"
    then obtain j where j: "j < length (tl p)" "c = tl p ! j" by (auto simp: in_set_conv_nth)
    then have "c = p ! Suc j" "Suc j < ?n" using len by (simp_all add: nth_tl)
    with near nearest_unvisited_range[of dm p "Suc j"] show "0 \<le> c \<and> c < int ?n" by simp
  qed
  have "\<forall>i \<in> set p. valid_index ?n i"
  proof
    fix i assume "i \<in> set p"
    with ne hd have "i = start \<or> i \<in> set (tl p)" by (cases p) auto
    with st tl show "valid_index ?n i" by (auto simp: valid_index_def)
  qed
  with len ne hd dis tl have "complete_tour ?n start p" by (simp add: complete_tour_def)
  with res show ?thesis by blast
qed

lemma complete_tour_entries:
  assumes "complete_tour n start t" "0 \<le> start"
  shows "distinct t \<and> set t = {0..<int n}"
proof -
  from assms have ne: "t \<noteq> []" and hd: "hd t = start" and len: "length t = n"
    and v: "\<forall>i \<in> set t. valid_index n i" and d: "distinct (map (place n) t)"
    and tl: "\<forall>c \<in> set (tl t). 0 \<le> c"
    by (simp_all add: complete_tour_def)
  have nonneg: "\<forall>i \<in> set t. 0 \<le> i"
  proof
    fix i assume "i \<in> set t"
    with ne hd have "i = start \<or> i \<in> set (tl t)" by (cases t) auto
    with assms(2) tl show "0 \<le> i" by auto
  qed
  from d have dt: "distinct t" by (rule distinct_map[THEN iffD1, THEN conjunct1])
  from nonneg v have sub: "set t \<subseteq> {0..<int n}" by (auto simp: valid_index_def)
  from dt len have "card (set t) = n" by (simp add: distinct_card)
  then have "card (set t) = card {0..<int n}" by simp
  with sub have "set t = {0..<int n}" by (intro card_subset_eq) auto
  with dt show ?thesis by simp
qed

lemma complete_tour_closed:
  assumes "complete_tour n start t" "0 \<le> start"
  shows "closed_tour n start (t @ [start])"
proof -
  from assms(1) have "length t = n" "t \<noteq> []" "hd t = start" by (simp_all add: complete_tour_def)
  moreover from this have "t ! 0 = start" by (cases t) simp_all
  ultimately show ?thesis
    using complete_tour_entries[OF assms] by (simp add: closed_tour_def nth_append)
qed

lemma path_sum_closed:
  "length t = n \<Longrightarrow>
   path_sum dm (t @ [start]) = (\<Sum>k < n. cell dm ((t @ [start]) ! k) ((t @ [start]) ! (k + 1)))"
  by (simp add: path_sum_as_sum)

text \<open>
  Claim C2. For a square matrix and a start that Python accepts as a subscript, both
  functions return a path of \<open>n + 1\<close> entries together with a total that is the sum of the
  entries \<^verbatim>\<open>distance_matrix[path[k]][path[k+1]]\<close> for \<open>k\<close> in \<open>[0, n)\<close>, read off the
  returned path (\<open>dist_cell\<close>: for subscripts in range \<open>cell\<close> is what the subscription
  yields).
\<close>

theorem total_is_sum_along_path:
  assumes "square distance_matrix" and "valid_index (length distance_matrix) start"
  shows "\<exists>greedy_path greedy_total bb_path bb_total.
           tsp_greedy distance_matrix start = Inr (greedy_path, greedy_total)
         \<and> tsp_branch_and_bound distance_matrix start = Inr (bb_path, Fin bb_total)
         \<and> length greedy_path = length distance_matrix + 1
         \<and> length bb_path = length distance_matrix + 1
         \<and> greedy_total = (\<Sum>k < length distance_matrix.
               cell distance_matrix (greedy_path ! k) (greedy_path ! (k + 1)))
         \<and> bb_total = (\<Sum>k < length distance_matrix.
               cell distance_matrix (bb_path ! k) (bb_path ! (k + 1)))"
proof -
  let ?n = "length distance_matrix"
  from tsp_greedy_complete[OF assms] obtain g where
    g: "tsp_greedy distance_matrix start = Inr (g @ [start], path_sum distance_matrix (g @ [start]))"
    and gc: "complete_tour ?n start g" by blast
  from tsp_branch_and_bound_tour[OF assms] obtain b where
    b: "tsp_branch_and_bound distance_matrix start
          = Inr (b @ [start], Fin (path_sum distance_matrix (b @ [start])))"
    and bc: "complete_tour ?n start b" by blast
  from gc bc have len: "length g = ?n" "length b = ?n" by (simp_all add: complete_tour_def)
  from g b len path_sum_closed[OF len(1), of distance_matrix start]
    path_sum_closed[OF len(2), of distance_matrix start]
  show ?thesis by simp
qed

text \<open>
  The four-city scenario with \<open>start = 0\<close> satisfies the hypotheses of C2.
\<close>

theorem total_is_sum_along_path_witness:
  "square four_cities \<and> valid_index (length four_cities) 0
   \<and> (\<exists>greedy_path greedy_total bb_path bb_total.
           tsp_greedy four_cities 0 = Inr (greedy_path, greedy_total)
         \<and> tsp_branch_and_bound four_cities 0 = Inr (bb_path, Fin bb_total)
         \<and> length greedy_path = length four_cities + 1
         \<and> length bb_path = length four_cities + 1
         \<and> greedy_total = (\<Sum>k < length four_cities.
               cell four_cities (greedy_path ! k) (greedy_path ! (k + 1)))
         \<and> bb_total = (\<Sum>k < length four_cities.
               cell four_cities (bb_path ! k) (bb_path ! (k + 1))))"
proof -
  have v: "valid_index (length four_cities) 0" by (simp add: valid_index_def length_four_cities)
  from total_is_sum_along_path[OF square_four_cities v] square_four_cities v
  show ?thesis by blast
qed

text \<open>
  Claim C3. For every square matrix, of whatever entries, and every start in \<open>[0, n)\<close>,
  both functions return a path of length \<open>n + 1\<close> that begins and ends with \<open>start\<close> and
  whose first \<open>n\<close> entries contain every index in \<open>[0, n)\<close> exactly once.
\<close>

theorem both_solvers_return_closed_tours:
  assumes "square distance_matrix" and "0 \<le> start" and "start < int (length distance_matrix)"
  shows "\<exists>greedy_path greedy_total bb_path bb_total.
           tsp_greedy distance_matrix start = Inr (greedy_path, greedy_total)
         \<and> tsp_branch_and_bound distance_matrix start = Inr (bb_path, bb_total)
         \<and> closed_tour (length distance_matrix) start greedy_path
         \<and> closed_tour (length distance_matrix) start bb_path"
proof -
  let ?n = "length distance_matrix"
  from assms(2,3) have st: "valid_index ?n start" by (simp add: valid_index_def)
  from tsp_greedy_complete[OF assms(1) st] obtain g where
    g: "tsp_greedy distance_matrix start = Inr (g @ [start], path_sum distance_matrix (g @ [start]))"
    and gc: "complete_tour ?n start g" by blast
  from tsp_branch_and_bound_tour[OF assms(1) st] obtain b where
    b: "tsp_branch_and_bound distance_matrix start
          = Inr (b @ [start], Fin (path_sum distance_matrix (b @ [start])))"
    and bc: "complete_tour ?n start b" by blast
  from g b complete_tour_closed[OF gc assms(2)] complete_tour_closed[OF bc assms(2)]
  show ?thesis by blast
qed

text \<open>
  The four-city scenario with \<open>start = 0\<close> satisfies the hypotheses of C3.
\<close>

theorem both_solvers_return_closed_tours_witness:
  "square four_cities \<and> (0::int) \<le> 0 \<and> 0 < int (length four_cities)
   \<and> (\<exists>greedy_path greedy_total bb_path bb_total.
           tsp_greedy four_cities 0 = Inr (greedy_path, greedy_total)
         \<and> tsp_branch_and_bound four_cities 0 = Inr (bb_path, bb_total)
         \<and> closed_tour (length four_cities) 0 greedy_path
         \<and> closed_tour (length four_cities) 0 bb_path)"
proof -
  have a: "(0::int) \<le> 0" and b: "0 < int (length four_cities)"
    by (simp_all add: length_four_cities)
  from both_solvers_return_closed_tours[OF square_four_cities a b] square_four_cities a b
  show ?thesis by blast
qed

text \<open>
  Claim C5. On a square matrix with non-negative entries the total of
  \<^verbatim>\<open>tsp_branch_and_bound\<close> is at most the total of \<^verbatim>\<open>tsp_greedy\<close> for the same start.
\<close>

theorem branch_and_bound_not_longer_than_greedy:
  assumes "square distance_matrix" and "nonneg distance_matrix"
    and "valid_index (length distance_matrix) start"
  shows "\<exists>greedy_path greedy_total bb_path bb_total.
           tsp_greedy distance_matrix start = Inr (greedy_path, greedy_total)
         \<and> tsp_branch_and_bound distance_matrix start = Inr (bb_path, Fin bb_total)
         \<and> bb_total \<le> greedy_total"
proof -
  let ?n = "length distance_matrix"
  from tsp_greedy_complete[OF assms(1,3)] obtain g where
    g: "tsp_greedy distance_matrix start = Inr (g @ [start], path_sum distance_matrix (g @ [start]))"
    and gc: "complete_tour ?n start g" by blast
  from tsp_branch_and_bound_tour[OF assms(1,3)] assms(2) obtain b where
    b: "tsp_branch_and_bound distance_matrix start
          = Inr (b @ [start], Fin (path_sum distance_matrix (b @ [start])))"
    and opt: "\<forall>t'. complete_tour ?n start t'
                \<longrightarrow> path_sum distance_matrix (b @ [start]) \<le> path_sum distance_matrix (t' @ [start])"
    by blast
  from opt gc have "path_sum distance_matrix (b @ [start]) \<le> path_sum distance_matrix (g @ [start])"
    by blast
  with g b show ?thesis by blast
qed

lemma nonneg_four_cities: "nonneg four_cities"
  by (simp add: nonneg_def four_cities_def)

text \<open>
  The four-city scenario with \<open>start = 0\<close> satisfies the hypotheses of C5.
\<close>

theorem branch_and_bound_not_longer_than_greedy_witness:
  "square four_cities \<and> nonneg four_cities \<and> valid_index (length four_cities) 0
   \<and> (\<exists>greedy_path greedy_total bb_path bb_total.
           tsp_greedy four_cities 0 = Inr (greedy_path, greedy_total)
         \<and> tsp_branch_and_bound four_cities 0 = Inr (bb_path, Fin bb_total)
         \<and> bb_total \<le> greedy_total)"
proof -
  have v: "valid_index (length four_cities) 0" by (simp add: valid_index_def length_four_cities)
  from branch_and_bound_not_longer_than_greedy[OF square_four_cities nonneg_four_cities v]
    square_four_cities nonneg_four_cities v
  show ?thesis by blast
qed

section \<open>Optimality\<close>

lemma finite_other_permutations: "finite (other_permutations n start)"
proof -
  have "other_permutations n start \<subseteq> {xs. set xs \<subseteq> {0..<int n} \<and> length xs \<le> n}"
  proof
    fix xs assume "xs \<in> other_permutations n start"
    then have d: "distinct xs" and s: "set xs = {0..<int n} - {start}"
      by (simp_all add: other_permutations_def)
    from d have "length xs = card (set xs)" by (simp add: distinct_card)
    also have "\<dots> \<le> card {0..<int n}" unfolding s by (intro card_mono) auto
    finally show "xs \<in> {xs. set xs \<subseteq> {0..<int n} \<and> length xs \<le> n}" using s by auto
  qed
  moreover have "finite {xs. set xs \<subseteq> {0..<int n} \<and> length xs \<le> n}"
    by (rule finite_lists_length_le) simp
  ultimately show ?thesis by (rule finite_subset)
qed

lemma complete_tour_permutation:
  assumes "complete_tour n start t" "0 \<le> start"
  shows "\<exists>perm \<in> other_permutations n start. t = start # perm"
proof -
  from assms(1) have ne: "t \<noteq> []" and hd: "hd t = start" by (simp_all add: complete_tour_def)
  then have t: "t = start # tl t" by (cases t) simp_all
  from complete_tour_entries[OF assms] have d: "distinct t" and s: "set t = {0..<int n}" by simp_all
  from d t have "distinct (tl t)" "start \<notin> set (tl t)" by (metis distinct.simps(2))+
  moreover from s t this(2) have "set (tl t) = {0..<int n} - {start}"
    by (metis Diff_insert_absorb list.simps(15))
  ultimately have "tl t \<in> other_permutations n start" by (simp add: other_permutations_def)
  with t show ?thesis by blast
qed

lemma permutation_complete_tour:
  assumes "perm \<in> other_permutations n start" "0 \<le> start" "start < int n"
  shows "complete_tour n start (start # perm)"
proof -
  from assms(1) have d: "distinct perm" and s: "set perm = {0..<int n} - {start}"
    by (simp_all add: other_permutations_def)
  from d have "length perm = card ({0..<int n} - {start})" by (simp add: distinct_card[symmetric] s)
  also from assms(2,3) have "\<dots> = n - 1" by simp
  finally have len: "length (start # perm) = n" using assms(2,3) by simp
  have nonneg: "\<forall>i \<in> set (start # perm). 0 \<le> i \<and> i < int n" using s assms(2,3) by auto
  then have v: "\<forall>i \<in> set (start # perm). valid_index n i"
    unfolding valid_index_def by force
  from d s have ds: "distinct (start # perm)" by simp
  have "inj_on (place n) (set (start # perm))"
  proof (rule inj_onI)
    fix x y assume x: "x \<in> set (start # perm)" and y: "y \<in> set (start # perm)"
      and eq: "place n x = place n y"
    from nonneg x have x0: "0 \<le> x" by blast
    from nonneg y have y0: "0 \<le> y" by blast
    from eq x0 y0 have "nat x = nat y" by (simp add: place_nat)
    with x0 y0 show "x = y" by simp
  qed
  with ds have "distinct (map (place n) (start # perm))" by (simp only: distinct_map)
  with len v s show ?thesis by (auto simp: complete_tour_def)
qed

text \<open>
  Claim C1. For a square matrix with non-negative entries and a start in \<open>[0, n)\<close>, the
  total returned by \<^verbatim>\<open>tsp_branch_and_bound\<close> is the minimum, over all permutations of the
  other \<open>n - 1\<close> indices, of the length of the closed tour from \<open>start\<close>. Symmetry and a
  zero diagonal are not needed.
\<close>

theorem branch_and_bound_is_optimal:
  assumes "square distance_matrix" and "nonneg distance_matrix"
    and "0 \<le> start" and "start < int (length distance_matrix)"
  shows "\<exists>path. tsp_branch_and_bound distance_matrix start =
           Inr (path, Fin (Min (closed_tour_length distance_matrix start `
                                 other_permutations (length distance_matrix) start)))"
proof -
  let ?n = "length distance_matrix"
  let ?L = "closed_tour_length distance_matrix start ` other_permutations ?n start"
  from assms(3,4) have st: "valid_index ?n start" by (simp add: valid_index_def)
  from tsp_branch_and_bound_tour[OF assms(1) st] assms(2) obtain t where
    res: "tsp_branch_and_bound distance_matrix start
            = Inr (t @ [start], Fin (path_sum distance_matrix (t @ [start])))"
    and ct: "complete_tour ?n start t"
    and opt: "\<forall>t'. complete_tour ?n start t'
                \<longrightarrow> path_sum distance_matrix (t @ [start]) \<le> path_sum distance_matrix (t' @ [start])"
    by blast
  from complete_tour_permutation[OF ct assms(3)] obtain perm where
    perm: "perm \<in> other_permutations ?n start" and t: "t = start # perm" by blast
  have fin: "finite ?L" using finite_other_permutations by (rule finite_imageI)
  have mem: "path_sum distance_matrix (t @ [start]) \<in> ?L"
    using perm by (auto simp: t closed_tour_length_def)
  have low: "\<And>y. y \<in> ?L \<Longrightarrow> path_sum distance_matrix (t @ [start]) \<le> y"
  proof -
    fix y assume "y \<in> ?L"
    then obtain q where q: "q \<in> other_permutations ?n start"
      and y: "y = path_sum distance_matrix ((start # q) @ [start])"
      by (auto simp: closed_tour_length_def)
    from permutation_complete_tour[OF q assms(3,4)] opt y
    show "path_sum distance_matrix (t @ [start]) \<le> y" by blast
  qed
  have "Min ?L = path_sum distance_matrix (t @ [start])"
    using fin low mem by (rule Min_eqI)
  with res show ?thesis by simp
qed

text \<open>
  The four-city scenario with \<open>start = 0\<close> satisfies the hypotheses of C1.
\<close>

theorem branch_and_bound_is_optimal_witness:
  "square four_cities \<and> nonneg four_cities \<and> (0::int) \<le> 0 \<and> 0 < int (length four_cities)
   \<and> (\<exists>path. tsp_branch_and_bound four_cities 0 =
           Inr (path, Fin (Min (closed_tour_length four_cities 0 `
                                 other_permutations (length four_cities) 0))))"
proof -
  have a: "(0::int) \<le> 0" and b: "0 < int (length four_cities)"
    by (simp_all add: length_four_cities)
  from branch_and_bound_is_optimal[OF square_four_cities nonneg_four_cities a b]
    square_four_cities nonneg_four_cities a b
  show ?thesis by blast
qed

text \<open>
  On the four-city scenario the search returns the tour of length 80 that the
  specification names.
\<close>

lemma four_cities_optimum: "tsp_branch_and_bound four_cities 0 = Inr ([0, 1, 3, 2, 0], Fin 80)"
  by code_simp

section \<open>Negative start indices\<close>

lemma complete_tour_wrapped:
  assumes ct: "complete_tour n start t" and neg: "start < 0" and lo: "- int n \<le> start"
  shows "wrapped_tour n start (t @ [start])"
proof -
  from ct have len: "length t = n" and ne: "t \<noteq> []" and hd: "hd t = start"
    and v: "\<forall>i \<in> set t. valid_index n i" and d: "distinct (map (place n) t)"
    and tl: "\<forall>c \<in> set (tl t). 0 \<le> c"
    by (simp_all add: complete_tour_def)
  from ne hd have t: "t = start # tl t" by (cases t) simp_all
  from d t have d1: "distinct (map (place n) (tl t))"
    and d2: "place n start \<notin> place n ` set (tl t)"
    by (metis distinct.simps(2) list.simps(9) set_map)+
  from d1 have dtl: "distinct (tl t)" by (rule distinct_map[THEN iffD1, THEN conjunct1])
  from neg lo have ps: "place n start = nat (int n + start)" by (simp add: place_def)
  have sub: "set (tl t) \<subseteq> {0..<int n} - {int n + start}"
  proof
    fix c assume c: "c \<in> set (tl t)"
    with tl have c0: "0 \<le> c" by blast
    from c t have "c \<in> set t" by (metis list.set_intros(2))
    with v have "valid_index n c" by blast
    with c0 have cn: "c < int n" by (simp add: valid_index_def)
    from c d2 have "place n c \<noteq> place n start" by (metis imageI)
    with c0 ps have "c \<noteq> int n + start" by (auto simp: place_nat)
    with c0 cn show "c \<in> {0..<int n} - {int n + start}" by simp
  qed
  from neg lo have "card ({0..<int n} - {int n + start}) = n - 1" by simp
  moreover from dtl len have "card (set (tl t)) = n - 1" by (simp add: distinct_card)
  ultimately have "set (tl t) = {0..<int n} - {int n + start}"
    using sub by (intro card_subset_eq) auto
  moreover from t have "(t @ [start]) ! 0 = start" by (metis append_Cons nth_Cons_0)
  ultimately show ?thesis using len dtl by (simp add: wrapped_tour_def nth_append)
qed

text \<open>
  Claim C10. For a square matrix of size \<open>n \<ge> 1\<close> and a start in \<open>[-n, -1]\<close> both
  functions return. Python reads the subscript \<open>start\<close> as position \<open>n + start\<close>, so that
  city is the one marked as visited at the beginning and never chosen later; the path has
  \<open>n + 1\<close> entries and begins and ends with the negative value \<open>start\<close> itself.
\<close>

theorem negative_start_wraps_around:
  assumes "square distance_matrix"
    and "- int (length distance_matrix) \<le> start" and "start < 0"
  shows "\<exists>greedy_path greedy_total bb_path bb_total.
           tsp_greedy distance_matrix start = Inr (greedy_path, greedy_total)
         \<and> tsp_branch_and_bound distance_matrix start = Inr (bb_path, Fin bb_total)
         \<and> position (length distance_matrix) start
               = Some (nat (int (length distance_matrix) + start))
         \<and> wrapped_tour (length distance_matrix) start greedy_path
         \<and> wrapped_tour (length distance_matrix) start bb_path"
proof -
  let ?n = "length distance_matrix"
  from assms(2,3) have st: "valid_index ?n start" by (simp add: valid_index_def)
  from tsp_greedy_complete[OF assms(1) st] obtain g where
    g: "tsp_greedy distance_matrix start = Inr (g @ [start], path_sum distance_matrix (g @ [start]))"
    and gc: "complete_tour ?n start g" by blast
  from tsp_branch_and_bound_tour[OF assms(1) st] obtain b where
    b: "tsp_branch_and_bound distance_matrix start
          = Inr (b @ [start], Fin (path_sum distance_matrix (b @ [start])))"
    and bc: "complete_tour ?n start b" by blast
  have pos: "position ?n start = Some (nat (int ?n + start))"
    using assms(2,3) by (simp add: position_def)
  from g b pos complete_tour_wrapped[OF gc assms(3,2)] complete_tour_wrapped[OF bc assms(3,2)]
  show ?thesis by blast
qed

text \<open>
  The four-city scenario with \<open>start = -1\<close> satisfies the hypotheses of C10.
\<close>

theorem negative_start_wraps_around_witness:
  "square four_cities \<and> - int (length four_cities) \<le> - 1 \<and> (- 1 :: int) < 0
   \<and> (\<exists>greedy_path greedy_total bb_path bb_total.
           tsp_greedy four_cities (- 1) = Inr (greedy_path, greedy_total)
         \<and> tsp_branch_and_bound four_cities (- 1) = Inr (bb_path, Fin bb_total)
         \<and> position (length four_cities) (- 1)
               = Some (nat (int (length four_cities) + - 1))
         \<and> wrapped_tour (length four_cities) (- 1) greedy_path
         \<and> wrapped_tour (length four_cities) (- 1) bb_path)"
proof -
  have a: "- int (length four_cities) \<le> - 1" and b: "(- 1 :: int) < 0"
    by (simp_all add: length_four_cities)
  from negative_start_wraps_around[OF square_four_cities a b] square_four_cities a b
  show ?thesis by blast
qed

text \<open>
  The two tours from \<open>start = -1\<close> on the four-city scenario.
\<close>

lemma four_cities_from_last:
  "tsp_greedy four_cities (- 1) = Inr ([- 1, 0, 1, 2, - 1], 95)
   \<and> tsp_branch_and_bound four_cities (- 1) = Inr ([- 1, 1, 0, 2, - 1], Fin 80)"
  by code_simp

section \<open>The search restores its lists\<close>

lemma explore_append:
  "explore dm start cc (xs @ ys) s cd =
     (case explore dm start cc xs s cd of
        Inl e \<Rightarrow> Inl e
      | Inr s1 \<Rightarrow> explore dm start cc ys s1 cd)"
proof (induction xs arbitrary: s)
  case Nil
  then show ?case by simp
next
  case (Cons x xs)
  show ?case
    by (simp add: Cons Let_def split: sum.splits)
qed

lemma recursive_call_inv:
  assumes sq: "square dm" and st: "valid_index (length dm) start"
    and rc: "recursive_call dm start (s, cd) (s', cd')"
    and inv: "search_inv dm start s" and cd: "cd = path_sum dm (path s)"
  shows "search_inv dm start s' \<and> cd' = path_sum dm (path s')"
  using rc
proof (cases rule: recursive_call.cases)
  case (1 cc earlier c later sb d marked)
  let ?n = "length dm"
  note s' = 1(1) and cd' = 1(2)
  from inv have ne: "path s \<noteq> []" and m: "marks ?n (visited s) (path s)"
    by (simp_all add: search_inv_def)
  from 1(3) getitem_last[OF ne] have cc: "cc = last (path s)" by simp
  from 1(5) have mem: "set earlier \<subseteq> set (py_range ?n)" "c \<in> set (py_range ?n)"
    by (metis set_append sup_ge1, metis in_set_conv_decomp)
  then have early: "\<forall>c \<in> set earlier. 0 \<le> c \<and> c < int ?n" and c: "0 \<le> c" "c < int ?n"
    by (auto simp: set_range)
  from search_correct(2)[OF sq st inv cd cc early] 1(6)
  have psb: "path sb = path s" and vsb: "visited sb = visited s" and ok: "best_ok dm start sb"
    by auto
  from inv psb vsb ok have invb: "search_inv dm start sb"
    by (simp add: search_inv_def)
  from m have len: "length (visited sb) = ?n" by (simp add: marks_def vsb)
  from c have vc: "valid_index ?n c" by (simp add: valid_index_def)
  from 1(7) getitem_valid[of "visited sb" c] vc c len
  have unseen: "\<not> visited sb ! nat c" by (simp add: place_nat)
  from 1(10) setitem_valid[of "visited sb" c True] vc c len
  have marked: "marked = (visited sb)[nat c := True]" by (simp add: place_nat)
  from inv_child[OF invb c unseen] have "search_inv dm start s'"
    by (simp add: s' marked)
  moreover from dist_cell[OF sq inv_last_valid[OF inv] vc] 1(8) cc
  have "d = cell dm (last (path s)) c" by simp
  with cd ne have "cd' = path_sum dm (path s')"
    by (simp add: s' cd' psb path_sum_snoc)
  ultimately show ?thesis by simp
qed

lemma reachable_call_inv:
  assumes sq: "square dm" and st: "valid_index (length dm) start"
    and inv: "search_inv dm start s0" and cd: "cd0 = path_sum dm (path s0)"
  shows "(recursive_call dm start)\<^sup>*\<^sup>* (s0, cd0) (s, cd) \<Longrightarrow>
         search_inv dm start s \<and> cd = path_sum dm (path s)"
proof (induction "(s, cd)" arbitrary: s cd rule: rtranclp_induct)
  case base
  with inv cd show ?case by simp
next
  case (step y)
  obtain s1 cd1 where y: "y = (s1, cd1)" by (cases y)
  from step.hyps(3)[OF y] have "search_inv dm start s1 \<and> cd1 = path_sum dm (path s1)" .
  with recursive_call_inv[OF sq st step.hyps(2)[unfolded y]] show ?case by simp
qed

lemma initial_search_inv:
  "valid_index (length dm) start \<Longrightarrow> search_inv dm start (initial_search (length dm) start)"
  using marks_initial[of "length dm" start]
  by (simp add: search_inv_def best_ok_def initial_search_def)

lemma tsp_branch_and_bound_initial:
  assumes "valid_index (length dm) start"
  shows "tsp_branch_and_bound dm start =
           (case backtrack dm start (initial_search (length dm) start) 0 of
              Inl e \<Rightarrow> Inl e
            | Inr s \<Rightarrow> Inr (best_path s @ [start], best_distance s))"
  using assms by (simp add: tsp_branch_and_bound_def Let_def setitem_valid initial_search_def)

text \<open>
  Claim C8. For a square matrix and a start that Python accepts: at every call of
  \<^verbatim>\<open>backtrack\<close> reached from the top-level call through recursive calls, \<^verbatim>\<open>visited\<close> marks
  exactly the cities on \<^verbatim>\<open>path\<close>, and the call returns with both lists as they were on
  entry; any stretch of the loop that returns, whether its children were explored,
  skipped or pruned, leaves both lists unchanged; and the top-level call returns with
  \<^verbatim>\<open>path\<close> equal to \<open>[start]\<close> and \<^verbatim>\<open>visited\<close> marking \<open>start\<close> only.
\<close>

theorem search_restores_path_and_visited:
  assumes "square distance_matrix" and "valid_index (length distance_matrix) start"
  shows "(\<forall>s current_distance.
            (recursive_call distance_matrix start)\<^sup>*\<^sup>*
               (initial_search (length distance_matrix) start, 0) (s, current_distance)
            \<longrightarrow> marks (length distance_matrix) (visited s) (path s)
                \<and> (\<exists>s'. backtrack distance_matrix start s current_distance = Inr s'
                        \<and> path s' = path s \<and> visited s' = visited s))
       \<and> (\<forall>current_city cities s current_distance s'.
            explore distance_matrix start current_city cities s current_distance = Inr s'
            \<longrightarrow> path s' = path s \<and> visited s' = visited s)
       \<and> (\<exists>s'. backtrack distance_matrix start (initial_search (length distance_matrix) start) 0
                  = Inr s'
              \<and> path s' = [start]
              \<and> visited s' = (replicate (length distance_matrix) False)
                                [place (length distance_matrix) start := True])"
proof -
  let ?n = "length distance_matrix"
  let ?s0 = "initial_search ?n start"
  have inv0: "search_inv distance_matrix start ?s0" using assms(2) by (rule initial_search_inv)
  have cd0: "0 = path_sum distance_matrix (path ?s0)" by (simp add: initial_search_def)
  have reach: "marks ?n (visited s) (path s)
                \<and> (\<exists>s'. backtrack distance_matrix start s cd = Inr s'
                        \<and> path s' = path s \<and> visited s' = visited s)"
    if r: "(recursive_call distance_matrix start)\<^sup>*\<^sup>* (?s0, 0) (s, cd)" for s cd
  proof -
    from reachable_call_inv[OF assms inv0 cd0 r]
    have inv: "search_inv distance_matrix start s" and cd: "cd = path_sum distance_matrix (path s)"
      by simp_all
    from search_correct(1)[OF assms inv cd] inv show ?thesis
      by (auto simp: search_inv_def)
  qed
  have top: "\<exists>s'. backtrack distance_matrix start ?s0 0 = Inr s' \<and> path s' = [start]
              \<and> visited s' = (replicate ?n False)[place ?n start := True]"
    using search_correct(1)[OF assms inv0 cd0] by (auto simp: initial_search_def)
  from reach top explore_restores show ?thesis by blast
qed

lemma four_cities_first_call:
  "recursive_call four_cities 0 (initial_search (length four_cities) 0, 0)
     ((initial_search (length four_cities) 0)
        \<lparr>visited := [True, True, False, False], path := [0, 1]\<rparr>, 10)"
proof -
  let ?s0 = "initial_search (length four_cities) 0"
  have s0: "?s0 = \<lparr> path = [0], visited = [True, False, False, False],
                     best_distance = Inf, best_path = [] \<rparr>"
    by (simp add: initial_search_def length_four_cities place_def eval_nat_numeral)
  have 1: "getitem (path ?s0) (- 1) = Inr 0" by (simp add: s0 getitem_def position_def)
  have 2: "length (path ?s0) \<noteq> length four_cities"
    by (simp add: initial_search_def length_four_cities)
  have 3: "py_range (length four_cities) = [0] @ 1 # [2, 3]"
    by (simp add: py_range_def length_four_cities upt_rec)
  have 4: "explore four_cities 0 0 [0] ?s0 0 = Inr ?s0"
    by (simp add: s0 getitem_def position_def)
  have 5: "getitem (visited ?s0) 1 = Inr False" by (simp add: s0 getitem_def position_def)
  have 6: "dist four_cities 0 1 = Inr 10"
    by (simp add: dist_def getitem_def position_def four_cities_def)
  have 7: "below (0 + 10) (best_distance ?s0)" by (simp add: s0)
  have 8: "setitem (visited ?s0) 1 True = Inr [True, True, False, False]"
    by (simp add: s0 setitem_def position_def)
  from recursive_call.intros[OF 1 2 3 4 5 6 7 8] show ?thesis by (simp add: s0)
qed

text \<open>
  The four-city scenario with \<open>start = 0\<close> satisfies the hypotheses of C8; the first
  recursive call, to city 1, is a reachable call.
\<close>

theorem search_restores_path_and_visited_witness:
  "square four_cities \<and> valid_index (length four_cities) 0
   \<and> (\<exists>s current_distance.
          (recursive_call four_cities 0)\<^sup>*\<^sup>*
             (initial_search (length four_cities) 0, 0) (s, current_distance)
        \<and> path s = [0, 1]
        \<and> marks (length four_cities) (visited s) (path s)
        \<and> (\<exists>s'. backtrack four_cities 0 s current_distance = Inr s'
                \<and> path s' = path s \<and> visited s' = visited s))
   \<and> (\<exists>s'. backtrack four_cities 0 (initial_search (length four_cities) 0) 0 = Inr s'
              \<and> path s' = [0]
              \<and> visited s' = (replicate (length four_cities) False)
                                [place (length four_cities) 0 := True])"
proof -
  have v: "valid_index (length four_cities) 0" by (simp add: valid_index_def length_four_cities)
  let ?s = "(initial_search (length four_cities) 0)
              \<lparr>visited := [True, True, False, False], path := [0, 1]\<rparr>"
  have r: "(recursive_call four_cities 0)\<^sup>*\<^sup>* (initial_search (length four_cities) 0, 0) (?s, 10)"
    using four_cities_first_call by (rule r_into_rtranclp)
  have p: "path ?s = [0, 1]" by simp
  note main = search_restores_path_and_visited[OF square_four_cities v]
  from main r have "marks (length four_cities) (visited ?s) (path ?s)
                \<and> (\<exists>s'. backtrack four_cities 0 ?s 10 = Inr s'
                        \<and> path s' = path ?s \<and> visited s' = visited ?s)"
    by blast
  with r p have a: "\<exists>s current_distance.
          (recursive_call four_cities 0)\<^sup>*\<^sup>*
             (initial_search (length four_cities) 0, 0) (s, current_distance)
        \<and> path s = [0, 1]
        \<and> marks (length four_cities) (visited s) (path s)
        \<and> (\<exists>s'. backtrack four_cities 0 s current_distance = Inr s'
                \<and> path s' = path s \<and> visited s' = visited s)"
    by blast
  from main have b: "\<exists>s'. backtrack four_cities 0 (initial_search (length four_cities) 0) 0 = Inr s'
              \<and> path s' = [0]
              \<and> visited s' = (replicate (length four_cities) False)
                                [place (length four_cities) 0 := True]"
    by blast
  from square_four_cities v a b show ?thesis by blast
qed

section \<open>Depth and branching of the search\<close>

lemma recursive_call_length:
  assumes "recursive_call dm start (s, cd) (s', cd')"
  shows "length (path s') = length (path s) + 1 \<and> length (path s) \<noteq> length dm"
  using assms
proof (cases rule: recursive_call.cases)
  case (1 cc earlier c later sb d marked)
  from explore_restores[OF 1(6)] have "path sb = path s" by simp
  with 1(1,4) show ?thesis by simp
qed

lemma distinct_range: "distinct (py_range n)"
  by (simp add: py_range_def distinct_map)

lemma split_unique:
  assumes "distinct xs" "xs = e1 @ c # l1" "xs = e2 @ c # l2"
  shows "e1 = e2"
proof -
  from assms(1,2) have "c \<notin> set e1" by auto
  then have 1: "takeWhile (\<lambda>x. x \<noteq> c) (e1 @ c # l1) = e1" by (induction e1) auto
  from assms(1,3) have "c \<notin> set e2" by auto
  then have 2: "takeWhile (\<lambda>x. x \<noteq> c) (e2 @ c # l2) = e2" by (induction e2) auto
  from 1 2 assms(2,3) show ?thesis by simp
qed

lemma recursive_call_city:
  assumes "recursive_call dm start (s, cd) y"
  shows "last (path (fst y)) \<in> set (py_range (length dm))"
  using assms
proof (cases rule: recursive_call.cases)
  case (1 cc earlier c later sb d marked)
  from 1(4) have "c \<in> set (py_range (length dm))" by (metis in_set_conv_decomp)
  with 1(1) show ?thesis by simp
qed

lemma recursive_call_determined:
  assumes a: "recursive_call dm start (s, cd) y1" and b: "recursive_call dm start (s, cd) y2"
    and eq: "last (path (fst y1)) = last (path (fst y2))"
  shows "y1 = y2"
  using a
proof (cases rule: recursive_call.cases)
  case A: (1 cc earlier c later sb d marked)
  from b show ?thesis
  proof (cases rule: recursive_call.cases)
    case B: (1 cc' earlier' c' later' sb' d' marked')
    from eq A(1) B(1) have c: "c' = c" by simp
    from A(2) B(2) have cc: "cc' = cc" by simp
    from split_unique[OF distinct_range A(4) B(4)[unfolded c]] have e: "earlier' = earlier" by simp
    from A(5) B(5) have sb: "sb' = sb" by (simp add: cc e)
    from A(7) B(7) have d: "d' = d" by (simp add: cc c)
    from A(9) B(9) have m: "marked' = marked" by (simp add: sb c)
    show ?thesis by (simp add: A(1) B(1) c sb d m)
  qed
qed

lemma branching_bound:
  "finite {y. recursive_call dm start x y} \<and> card {y. recursive_call dm start x y} \<le> length dm"
proof -
  obtain s cd where x: "x = (s, cd)" by (cases x)
  let ?C = "{y. recursive_call dm start (s, cd) y}"
  let ?h = "\<lambda>y. last (path (fst y))"
  have inj: "inj_on ?h ?C"
  proof (rule inj_onI)
    fix y1 y2 assume "y1 \<in> ?C" "y2 \<in> ?C" "?h y1 = ?h y2"
    then show "y1 = y2" using recursive_call_determined[of dm start s cd y1 y2] by simp
  qed
  have img: "?h ` ?C \<subseteq> set (py_range (length dm))"
    using recursive_call_city by auto
  have "card ?C \<le> card (set (py_range (length dm)))"
    using inj img by (rule card_inj_on_le) simp
  also have "\<dots> = length dm"
    using distinct_card[OF distinct_range, of "length dm"] by (simp add: py_range_def)
  finally have "card ?C \<le> length dm" .
  moreover have "finite ?C" using inj img by (rule inj_on_finite) simp
  ultimately show ?thesis by (simp add: x)
qed

lemma depth_of_call:
  assumes sq: "square dm" and st: "valid_index (length dm) start"
  shows "(recursive_call dm start ^^ k) (initial_search (length dm) start, 0) (s, cd) \<Longrightarrow>
         length (path s) = k + 1 \<and> search_inv dm start s \<and> cd = path_sum dm (path s)"
proof (induction k arbitrary: s cd)
  case 0
  then have "s = initial_search (length dm) start" "cd = 0" by simp_all
  then show ?case using initial_search_inv[OF st] by (simp add: initial_search_def)
next
  case (Suc k)
  from Suc.prems obtain s1 cd1 where
    r1: "(recursive_call dm start ^^ k) (initial_search (length dm) start, 0) (s1, cd1)"
    and r2: "recursive_call dm start (s1, cd1) (s, cd)" by auto
  from Suc.IH[OF r1] have l1: "length (path s1) = k + 1" and inv1: "search_inv dm start s1"
    and cd1: "cd1 = path_sum dm (path s1)" by simp_all
  from recursive_call_inv[OF sq st r2 inv1 cd1] recursive_call_length[OF r2] l1
  show ?case by simp
qed

text \<open>
  Claim C9. \<open>backtrack\<close> is a total function: its termination proof above rests on the
  number of unmarked entries of \<^verbatim>\<open>visited\<close>, which every recursive call decreases. For a
  square matrix and a start that Python accepts, the top-level call returns; a call
  reached from it through \<open>k\<close> nested recursive calls has a path of \<open>k + 1\<close> cities and
  \<open>k < n\<close>, so the recursion is never deeper than \<open>n\<close>; the measure \<open>n - len(path)\<close>
  strictly decreases from such a call to each call it makes; and every call makes at most
  \<open>n\<close> recursive calls, one for each city of \<^verbatim>\<open>range(n)\<close> at most.
\<close>

theorem search_terminates_within_depth_n:
  assumes "square distance_matrix" and "valid_index (length distance_matrix) start"
  shows "(\<exists>s'. backtrack distance_matrix start (initial_search (length distance_matrix) start) 0
                 = Inr s')
       \<and> (\<forall>k s current_distance.
             (recursive_call distance_matrix start ^^ k)
                (initial_search (length distance_matrix) start, 0) (s, current_distance)
             \<longrightarrow> k < length distance_matrix \<and> length (path s) = k + 1)
       \<and> (\<forall>k s current_distance s' current_distance'.
             (recursive_call distance_matrix start ^^ k)
                (initial_search (length distance_matrix) start, 0) (s, current_distance)
             \<and> recursive_call distance_matrix start (s, current_distance) (s', current_distance')
             \<longrightarrow> length distance_matrix - length (path s')
                   < length distance_matrix - length (path s))
       \<and> (\<forall>call. finite {next_call. recursive_call distance_matrix start call next_call}
               \<and> card {next_call. recursive_call distance_matrix start call next_call}
                     \<le> length distance_matrix)"
proof -
  let ?n = "length distance_matrix"
  let ?s0 = "initial_search ?n start"
  let ?R = "recursive_call distance_matrix start"
  have cd0: "0 = path_sum distance_matrix (path ?s0)" by (simp add: initial_search_def)
  have ret: "\<exists>s'. backtrack distance_matrix start ?s0 0 = Inr s'"
    using search_correct(1)[OF assms initial_search_inv[OF assms(2)] cd0] by blast
  have depth: "k < ?n \<and> length (path s) = k + 1" if "(?R ^^ k) (?s0, 0) (s, cd)" for k s cd
  proof -
    from depth_of_call[OF assms that] have l: "length (path s) = k + 1"
      and inv: "search_inv distance_matrix start s" by simp_all
    from inv have "marks ?n (visited s) (path s)" by (simp add: search_inv_def)
    from marks_length_le[OF this] l show ?thesis by simp
  qed
  have decr: "?n - length (path s') < ?n - length (path s)"
    if r: "(?R ^^ k) (?s0, 0) (s, cd)" and c: "?R (s, cd) (s', cd')" for k s cd s' cd'
  proof -
    from r c have "(?R ^^ Suc k) (?s0, 0) (s', cd')" by auto
    from depth[OF this] depth[OF r] show ?thesis by linarith
  qed
  from ret depth decr branching_bound show ?thesis by blast
qed

text \<open>
  The four-city scenario with \<open>start = 0\<close> satisfies the hypotheses of C9; the call to
  city 1 is at depth 1.
\<close>

theorem search_terminates_within_depth_n_witness:
  "square four_cities \<and> valid_index (length four_cities) 0
   \<and> (\<exists>s'. backtrack four_cities 0 (initial_search (length four_cities) 0) 0 = Inr s')
   \<and> (\<exists>s current_distance.
          (recursive_call four_cities 0 ^^ 1)
             (initial_search (length four_cities) 0, 0) (s, current_distance)
        \<and> 1 < length four_cities \<and> length (path s) = 1 + 1)
   \<and> finite {next_call. recursive_call four_cities 0
                           (initial_search (length four_cities) 0, 0) next_call}
   \<and> card {next_call. recursive_call four_cities 0
                         (initial_search (length four_cities) 0, 0) next_call}
         \<le> length four_cities"
proof -
  have v: "valid_index (length four_cities) 0" by (simp add: valid_index_def length_four_cities)
  note main = search_terminates_within_depth_n[OF square_four_cities v]
  let ?s = "(initial_search (length four_cities) 0)
              \<lparr>visited := [True, True, False, False], path := [0, 1]\<rparr>"
  have r: "(recursive_call four_cities 0 ^^ 1) (initial_search (length four_cities) 0, 0) (?s, 10)"
    using four_cities_first_call by auto
  from main r have "1 < length four_cities \<and> length (path ?s) = 1 + 1" by blast
  with r have a: "\<exists>s current_distance.
          (recursive_call four_cities 0 ^^ 1)
             (initial_search (length four_cities) 0, 0) (s, current_distance)
        \<and> 1 < length four_cities \<and> length (path s) = 1 + 1"
    by blast
  from main have b: "\<exists>s'. backtrack four_cities 0 (initial_search (length four_cities) 0) 0 = Inr s'"
    by blast
  from main have c: "finite {next_call. recursive_call four_cities 0
                           (initial_search (length four_cities) 0, 0) next_call}
   \<and> card {next_call. recursive_call four_cities 0
                         (initial_search (length four_cities) 0, 0) next_call}
         \<le> length four_cities"
    by blast
  from square_four_cities v a b c show ?thesis by blast
qed

section \<open>The search without pruning\<close>

text \<open>
  The same depth-first search with the pruning test removed: \<open>backtrack_all\<close> and its
  loop \<open>explore_all\<close> are \<open>backtrack\<close> and \<open>explore\<close> without the line
  \<^verbatim>\<open>if projected_distance < best_distance\<close>, so every unvisited child is descended
  into and the search enumerates all tours from \<open>start\<close>.
\<close>

function backtrack_all :: "int list list \<Rightarrow> int \<Rightarrow> search \<Rightarrow> int \<Rightarrow> error + search"
  and explore_all :: "int list list \<Rightarrow> int \<Rightarrow> int \<Rightarrow> int list \<Rightarrow> search \<Rightarrow> int \<Rightarrow> error + search"
where
  "backtrack_all distance_matrix start s current_distance =
     (case getitem (path s) (- 1) of
        Inl e \<Rightarrow> Inl e
      | Inr current_city \<Rightarrow>
          if length (path s) = length distance_matrix then
            (case dist distance_matrix current_city start of
               Inl e \<Rightarrow> Inl e
             | Inr d \<Rightarrow>
                 (let total_distance = current_distance + d in
                  if below total_distance (best_distance s)
                  then Inr (s\<lparr>best_distance := Fin total_distance, best_path := path s\<rparr>)
                  else Inr s))
          else explore_all distance_matrix start current_city (py_range (length distance_matrix))
                 s current_distance)"
| "explore_all distance_matrix start current_city [] s current_distance = Inr s"
| "explore_all distance_matrix start current_city (next_city # rest) s current_distance =
     (case getitem (visited s) next_city of
        Inl e \<Rightarrow> Inl e
      | Inr seen \<Rightarrow>
          if \<not> seen then
            (case dist distance_matrix current_city next_city of
               Inl e \<Rightarrow> Inl e
             | Inr d \<Rightarrow>
                 (let projected_distance = current_distance + d in
                  case setitem (visited s) next_city True of
                    Inl e \<Rightarrow> Inl e
                  | Inr marked \<Rightarrow>
                      (case backtrack_all distance_matrix start
                              (s\<lparr>visited := marked, path := path s @ [next_city]\<rparr>)
                              projected_distance of
                         Inl e \<Rightarrow> Inl e
                       | Inr s1 \<Rightarrow>
                           (case pop (path s1) of
                              Inl e \<Rightarrow> Inl e
                            | Inr popped \<Rightarrow>
                                (case setitem (visited s1) next_city False of
                                   Inl e \<Rightarrow> Inl e
                                 | Inr unmarked \<Rightarrow>
                                     explore_all distance_matrix start current_city rest
                                       (s1\<lparr>path := popped, visited := unmarked\<rparr>)
                                       current_distance)))))
          else explore_all distance_matrix start current_city rest s current_distance)"
  by pat_completeness auto

text \<open>
  Termination, as for \<open>backtrack\<close>.
\<close>

lemma restore_all_dom:
  "backtrack_all_explore_all_dom (Inl (dm, start, s, cd)) \<Longrightarrow>
     backtrack_all dm start s cd = Inr s' \<Longrightarrow> visited s' = visited s \<and> path s' = path s"
  "backtrack_all_explore_all_dom (Inr (dm, start, cc, cs, s, cd)) \<Longrightarrow>
     explore_all dm start cc cs s cd = Inr s'' \<Longrightarrow> visited s'' = visited s \<and> path s'' = path s"
proof (induction dm start s cd and dm start cc cs s cd arbitrary: s' and s'' rule: backtrack_all_explore_all.pinduct)
  case (1 dm start s cd)
  from "1.prems" "1.hyps" obtain cc where cc: "getitem (path s) (- 1) = Inr cc"
    by (auto simp: backtrack_all.psimps split: sum.splits)
  show ?case
  proof (cases "length (path s) = length dm")
    case True
    with "1.prems" "1.hyps" cc show ?thesis
      by (auto simp: backtrack_all.psimps Let_def split: sum.splits if_splits)
  next
    case False
    with "1.prems" "1.hyps" cc have "explore_all dm start cc (py_range (length dm)) s cd = Inr s'"
      by (simp add: backtrack_all.psimps)
    with "1.IH"[OF cc False] show ?thesis by simp
  qed
next
  case (2 dm start cc s cd)
  then show ?case by (simp add: explore_all.psimps)
next
  case (3 dm start cc c rest s cd)
  note eq = "3.prems" and dom = "3.hyps"
  note sim = explore_all.psimps(2)[OF dom]
  from eq obtain seen where seen: "getitem (visited s) c = Inr seen"
    by (auto simp: sim split: sum.splits)
  show ?case
  proof (cases seen)
    case True
    with seen eq have "explore_all dm start cc rest s cd = Inr s''" by (simp add: sim)
    with "3.IH"(3)[OF seen] True show ?thesis by simp
  next
    case unseen: False
    from eq seen unseen obtain d where d: "dist dm cc c = Inr d"
      by (auto simp: sim split: sum.splits)
    from eq seen unseen d obtain marked where m: "setitem (visited s) c True = Inr marked"
      by (auto simp: sim split: sum.splits)
    from eq seen unseen d m obtain s1 where
      s1: "backtrack_all dm start (s\<lparr>visited := marked, path := path s @ [c]\<rparr>) (cd + d) = Inr s1"
      by (auto simp: sim split: sum.splits)
    from "3.IH"(1)[OF seen unseen d refl m s1]
    have r1: "visited s1 = marked" "path s1 = path s @ [c]" by simp_all
    from eq seen unseen d m s1 r1 obtain unmarked where
      u: "setitem (visited s1) c False = Inr unmarked"
      by (auto simp: sim pop_snoc split: sum.splits)
    from eq seen unseen d m s1 r1 u have
      rest: "explore_all dm start cc rest (s1\<lparr>path := path s, visited := unmarked\<rparr>) cd = Inr s''"
      by (simp add: sim pop_snoc)
    have p: "pop (path s1) = Inr (path s)" by (simp add: r1 pop_snoc)
    from "3.IH"(2)[OF seen unseen d refl m s1 p u rest]
    have "visited s'' = unmarked \<and> path s'' = path s" by simp
    moreover from seen unseen have "getitem (visited s) c = Inr False" by simp
    from mark_unmark[OF this m u[unfolded r1]] have "unmarked = visited s" .
    ultimately show ?thesis by simp
  qed
qed


lemma backtrack_all_explore_all_total: "All backtrack_all_explore_all_dom"
proof (relation "measures [
    (\<lambda>x. case x of Inl (dm, start, s, cd) \<Rightarrow> unvisited_count (visited s)
                  | Inr (dm, start, cc, cs, s, cd) \<Rightarrow> unvisited_count (visited s)),
    (\<lambda>x. case x of Inl _ \<Rightarrow> 1 | Inr _ \<Rightarrow> 0),
    (\<lambda>x. case x of Inl _ \<Rightarrow> 0 | Inr (dm, start, cc, cs, s, cd) \<Rightarrow> length cs)]", goal_cases)
  case 1
  then show ?case by simp
next
  case (2 dm start s cd cc)
  show ?case by simp
next
  case (3 dm start cc c rest s cd seen d proj marked)
  from 3(1,2) have "getitem (visited s) c = Inr False" by simp
  from mark_decreases[OF this 3(5)] show ?case by simp
next
  case (4 dm start cc c rest s cd seen d proj marked s1 popped unmarked)
  from restore_all_dom(1)[OF 4(9) 4(6)] have r1: "visited s1 = marked" by simp
  from 4(1,2) have "getitem (visited s) c = Inr False" by simp
  from mark_unmark[OF this 4(5) 4(8)[unfolded r1]] have "unmarked = visited s" .
  then show ?case by simp
next
  case 5
  show ?case by simp
qed


termination backtrack_all
  by (rule backtrack_all_explore_all_total)

declare backtrack_all.simps [simp del]

text \<open>
  \<^verbatim>\<open>tsp_branch_and_bound\<close> over the exhaustive search.
\<close>

definition tsp_exhaustive :: "int list list \<Rightarrow> int \<Rightarrow> error + (int list \<times> bound)" where
  "tsp_exhaustive distance_matrix start =
     (let n = length distance_matrix in
      case setitem (replicate n False) start True of
        Inl e \<Rightarrow> Inl e
      | Inr visited0 \<Rightarrow>
          (case backtrack_all distance_matrix start
                  \<lparr> path = [start], visited = visited0, best_distance = Inf, best_path = [] \<rparr> 0 of
             Inl e \<Rightarrow> Inl e
           | Inr s \<Rightarrow> Inr (best_path s @ [start], best_distance s)))"


lemma backtrack_all_restores:
  "backtrack_all dm start s cd = Inr s' \<Longrightarrow> visited s' = visited s \<and> path s' = path s"
  using restore_all_dom(1) backtrack_all_explore_all_total by blast

lemma explore_all_restores:
  "explore_all dm start cc cs s cd = Inr s' \<Longrightarrow> visited s' = visited s \<and> path s' = path s"
  using restore_all_dom(2) backtrack_all_explore_all_total by blast


text \<open>
  The invariant of the exhaustive search. No tour is skipped, so the recorded best is a
  lower bound of all tours through the current path whatever the signs of the entries.
\<close>

lemma search_all_correct:
  "square dm \<Longrightarrow> valid_index (length dm) start \<Longrightarrow> search_inv dm start s \<Longrightarrow>
   cd = path_sum dm (path s) \<Longrightarrow>
     \<exists>s'. backtrack_all dm start s cd = Inr s' \<and> path s' = path s \<and> visited s' = visited s
        \<and> best_ok dm start s' \<and> bound_le (best_distance s') (best_distance s)
        \<and> best_distance s' \<noteq> Inf
        \<and> covered dm start (best_distance s') (path s)"
  "square dm \<Longrightarrow> valid_index (length dm) start \<Longrightarrow> search_inv dm start s \<Longrightarrow>
   cd = path_sum dm (path s) \<Longrightarrow> cc = last (path s) \<Longrightarrow>
   \<forall>c \<in> set cs. 0 \<le> c \<and> c < int (length dm) \<Longrightarrow>
     \<exists>s'. explore_all dm start cc cs s cd = Inr s' \<and> path s' = path s \<and> visited s' = visited s
        \<and> best_ok dm start s' \<and> bound_le (best_distance s') (best_distance s)
        \<and> ((\<exists>c \<in> set cs. \<not> visited s ! nat c) \<longrightarrow> best_distance s' \<noteq> Inf)
        \<and> (\<forall>c \<in> set cs. covered dm start (best_distance s') (path s @ [c]))"
proof (induction dm start s cd and dm start cc cs s cd rule: backtrack_all_explore_all.induct)
  case (1 dm start s cd)
  note sq = "1.prems"(1) and st = "1.prems"(2) and inv = "1.prems"(3) and cd = "1.prems"(4)
  let ?n = "length dm"
  from inv have ne: "path s \<noteq> []" and m: "marks ?n (visited s) (path s)"
    and bok: "best_ok dm start s"
    by (simp_all add: search_inv_def)
  have last: "getitem (path s) (- 1) = Inr (last (path s))" using ne by (rule getitem_last)
  show ?case
  proof (cases "length (path s) = ?n")
    case True
    have d: "dist dm (last (path s)) start = Inr (cell dm (last (path s)) start)"
      using sq inv_last_valid[OF inv] st by (rule dist_cell)
    let ?total = "path_sum dm (path s @ [start])"
    have tot: "cd + cell dm (last (path s)) start = ?total"
      using ne cd by (simp add: path_sum_snoc)
    have cov: "covered dm start (Fin ?total) (path s)" using True by (rule covered_complete)
    show ?thesis
    proof (cases "below ?total (best_distance s)")
      case b: True
      let ?s' = "s\<lparr>best_distance := Fin ?total, best_path := path s\<rparr>"
      have "backtrack_all dm start s cd = Inr ?s'"
        using True b by (subst backtrack_all.simps) (simp add: last d tot Let_def)
      moreover have "best_ok dm start ?s'"
        using inv_complete[OF inv True] by (simp add: best_ok_def)
      moreover have "bound_le (best_distance ?s') (best_distance s)"
        using below_le[OF b] by simp
      ultimately show ?thesis using cov by simp
    next
      case b: False
      have "backtrack_all dm start s cd = Inr s"
        using True b by (subst backtrack_all.simps) (simp add: last d tot Let_def)
      moreover from b have ni: "best_distance s \<noteq> Inf" by auto
      moreover have "covered dm start (best_distance s) (path s)"
        using cov not_below[OF b] by (rule covered_mono)
      ultimately show ?thesis using bok by (simp add: bound_le_refl)
    qed
  next
    case False
    with marks_length_le[OF m] have lt: "length (path s) < ?n" by simp
    have r: "\<forall>c \<in> set (py_range ?n). 0 \<le> c \<and> c < int ?n" by (simp add: set_range)
    from "1.IH"[OF last False sq st inv cd refl r] obtain s' where
      ex: "explore_all dm start (last (path s)) (py_range ?n) s cd = Inr s'"
      and p: "path s' = path s" and v: "visited s' = visited s"
      and ok: "best_ok dm start s'" and le: "bound_le (best_distance s') (best_distance s)"
      and found: "(\<exists>c \<in> set (py_range ?n). \<not> visited s ! nat c) \<longrightarrow> best_distance s' \<noteq> Inf"
      and cov: "\<forall>c \<in> set (py_range ?n). covered dm start (best_distance s') (path s @ [c])"
      by blast
    have bt: "backtrack_all dm start s cd = Inr s'"
      using False by (subst backtrack_all.simps) (simp add: last ex)
    from unvisited_exists[OF m lt] obtain k where k: "k < ?n" "\<not> visited s ! k" by blast
    then have "int k \<in> set (py_range ?n)" "\<not> visited s ! nat (int k)" by (simp_all add: set_range)
    with found have ni: "best_distance s' \<noteq> Inf" by blast
    have "covered dm start (best_distance s') (path s)"
      using cov covered_children[OF inv lt] by blast
    with bt p v ok le ni show ?thesis by simp
  qed
next
  case (2 dm start cc s cd)
  then show ?case by (simp add: search_inv_def bound_le_refl)
next
  case (3 dm start cc c rest s cd)
  note sq = "3.prems"(1) and st = "3.prems"(2) and inv = "3.prems"(3) and cd = "3.prems"(4)
    and cc = "3.prems"(5) and cs = "3.prems"(6)
  let ?n = "length dm"
  from inv have ne: "path s \<noteq> []" and m: "marks ?n (visited s) (path s)"
    and bok: "best_ok dm start s"
    by (simp_all add: search_inv_def)
  from m have len: "length (visited s) = ?n" by (simp add: marks_def)
  from cs have c: "0 \<le> c" "c < int ?n" and rest: "\<forall>c \<in> set rest. 0 \<le> c \<and> c < int ?n" by simp_all
  then have vc: "valid_index ?n c" by (simp add: valid_index_def)
  have seen: "getitem (visited s) c = Inr (visited s ! nat c)"
    using vc c len by (simp add: getitem_valid place_nat)
  show ?case
  proof (cases "visited s ! nat c")
    case True
    have nn: "\<not> \<not> visited s ! nat c" using True by simp
    from "3.IH"(3)[OF seen nn sq st inv cd cc rest] obtain s' where
      ex: "explore_all dm start cc rest s cd = Inr s'"
      and p: "path s' = path s" and v: "visited s' = visited s"
      and ok: "best_ok dm start s'" and le: "bound_le (best_distance s') (best_distance s)"
      and found: "(\<exists>c \<in> set rest. \<not> visited s ! nat c) \<longrightarrow> best_distance s' \<noteq> Inf"
      and cov: "\<forall>c \<in> set rest. covered dm start (best_distance s') (path s @ [c])"
      by blast
    have e: "explore_all dm start cc (c # rest) s cd = Inr s'" using True by (simp add: seen ex)
    have "covered dm start (best_distance s') (path s @ [c])"
      unfolding covered_def using no_tour_through_visited[OF m c True] by blast
    with cov have cov': "\<forall>c' \<in> set (c # rest). covered dm start (best_distance s') (path s @ [c'])"
      by simp
    from found True have found': "(\<exists>c' \<in> set (c # rest). \<not> visited s ! nat c') \<longrightarrow> best_distance s' \<noteq> Inf"
      by simp
    from e p v ok le found' cov' show ?thesis by blast
  next
    case unseen: False
    have d: "dist dm cc c = Inr (cell dm cc c)"
      using sq inv_last_valid[OF inv] vc unfolding cc by (rule dist_cell)
    let ?proj = "cd + cell dm cc c"
    have proj: "?proj = path_sum dm (path s @ [c])" using ne cd cc by (simp add: path_sum_snoc)
    let ?marked = "(visited s)[nat c := True]"
    let ?child = "s\<lparr>visited := ?marked, path := path s @ [c]\<rparr>"
    have mk: "setitem (visited s) c True = Inr ?marked"
      using vc c len by (simp add: setitem_valid place_nat)
    have invc: "search_inv dm start ?child" using inv c unseen by (rule inv_child)
    have cdc: "?proj = path_sum dm (path ?child)" using proj by simp
    from "3.IH"(1)[OF seen unseen d refl mk sq st invc cdc] obtain s1 where
      bt: "backtrack_all dm start ?child ?proj = Inr s1"
      and p1: "path s1 = path s @ [c]" and v1: "visited s1 = ?marked"
      and ok1: "best_ok dm start s1" and le1: "bound_le (best_distance s1) (best_distance s)"
      and ni1: "best_distance s1 \<noteq> Inf"
      and cov1: "covered dm start (best_distance s1) (path s @ [c])"
      by auto
    have pp: "pop (path s1) = Inr (path s)" by (simp add: p1 pop_snoc)
    have um: "setitem (visited s1) c False = Inr (visited s)"
      using vc c len unseen by (simp add: v1 setitem_valid place_nat unmark_unmarked)
    let ?s2 = "s1\<lparr>path := path s, visited := visited s\<rparr>"
    have inv2: "search_inv dm start ?s2"
      using inv ok1 by (simp add: search_inv_def best_ok_def)
    have cd2: "cd = path_sum dm (path ?s2)" using cd by simp
    have cc2: "cc = last (path ?s2)" using cc by simp
    from "3.IH"(2)[OF seen unseen d refl mk bt pp um sq st inv2 cd2 cc2 rest] obtain s' where
      ex: "explore_all dm start cc rest ?s2 cd = Inr s'"
      and p: "path s' = path s" and v: "visited s' = visited s"
      and ok: "best_ok dm start s'" and le: "bound_le (best_distance s') (best_distance s1)"
      and cov: "\<forall>c \<in> set rest. covered dm start (best_distance s') (path s @ [c])"
      by auto
    have e: "explore_all dm start cc (c # rest) s cd = Inr s'"
      using unseen by (simp add: seen d mk bt pp um ex Let_def)
    from le le1 have le': "bound_le (best_distance s') (best_distance s)" by (rule bound_le_trans)
    from le ni1 have ni: "best_distance s' \<noteq> Inf" by (rule bound_le_not_Inf)
    from cov1 le have "covered dm start (best_distance s') (path s @ [c])"
      by (rule covered_mono)
    with cov have cov': "\<forall>c' \<in> set (c # rest). covered dm start (best_distance s') (path s @ [c'])"
      by simp
    from e p v ok le' ni cov' show ?thesis by blast
  qed
qed


lemma tsp_exhaustive_tour:
  assumes sq: "square dm" and st: "valid_index (length dm) start"
  shows "\<exists>t. tsp_exhaustive dm start = Inr (t @ [start], Fin (path_sum dm (t @ [start])))
            \<and> complete_tour (length dm) start t
            \<and> (\<forall>t'. complete_tour (length dm) start t'
                   \<longrightarrow> path_sum dm (t @ [start]) \<le> path_sum dm (t' @ [start]))"
proof -
  let ?n = "length dm"
  let ?s0 = "\<lparr> path = [start], visited = (replicate ?n False)[place ?n start := True],
               best_distance = Inf, best_path = [] \<rparr>"
  have set0: "setitem (replicate ?n False) start True = Inr ((replicate ?n False)[place ?n start := True])"
    using st by (simp add: setitem_valid)
  have inv0: "search_inv dm start ?s0"
    using marks_initial[OF st] by (simp add: search_inv_def best_ok_def)
  have cd0: "0 = path_sum dm (path ?s0)" by simp
  from search_all_correct(1)[OF sq st inv0 cd0] obtain s' where
    bt: "backtrack_all dm start ?s0 0 = Inr s'"
    and ok: "best_ok dm start s'" and ni: "best_distance s' \<noteq> Inf"
    and cov: "covered dm start (best_distance s') [start]"
    by auto
  let ?t = "best_path s'"
  from ok ni have ct: "complete_tour ?n start ?t"
    and bd: "best_distance s' = Fin (path_sum dm (?t @ [start]))"
    by (simp_all add: best_ok_def)
  have res: "tsp_exhaustive dm start = Inr (?t @ [start], Fin (path_sum dm (?t @ [start])))"
    by (simp add: tsp_exhaustive_def Let_def set0 bt bd)
  have "\<forall>t'. complete_tour ?n start t'
                   \<longrightarrow> path_sum dm (?t @ [start]) \<le> path_sum dm (t' @ [start])"
  proof (intro impI allI)
    fix t' assume t': "complete_tour ?n start t'"
    then have "take (length [start]) t' = [start]"
      by (cases t') (simp_all add: complete_tour_def)
    with cov t' have "bound_le (best_distance s') (Fin (path_sum dm (t' @ [start])))"
      unfolding covered_def by blast
    then show "path_sum dm (?t @ [start]) \<le> path_sum dm (t' @ [start])" by (simp add: bd)
  qed
  with res ct show ?thesis by blast
qed



text \<open>
  Claim C4. On a square matrix with non-negative entries, \<^verbatim>\<open>tsp_branch_and_bound\<close> with
  its pruning test and the same search without the test return the same total distance.
\<close>

theorem pruning_keeps_the_optimum:
  assumes "square distance_matrix" and "nonneg distance_matrix"
    and "valid_index (length distance_matrix) start"
  shows "\<exists>pruned_path exhaustive_path total.
           tsp_branch_and_bound distance_matrix start = Inr (pruned_path, Fin total)
         \<and> tsp_exhaustive distance_matrix start = Inr (exhaustive_path, Fin total)"
proof -
  let ?n = "length distance_matrix"
  from tsp_branch_and_bound_tour[OF assms(1,3)] assms(2) obtain b where
    b: "tsp_branch_and_bound distance_matrix start
          = Inr (b @ [start], Fin (path_sum distance_matrix (b @ [start])))"
    and bc: "complete_tour ?n start b"
    and bopt: "\<forall>t'. complete_tour ?n start t'
                \<longrightarrow> path_sum distance_matrix (b @ [start]) \<le> path_sum distance_matrix (t' @ [start])"
    by blast
  from tsp_exhaustive_tour[OF assms(1,3)] obtain x where
    x: "tsp_exhaustive distance_matrix start
          = Inr (x @ [start], Fin (path_sum distance_matrix (x @ [start])))"
    and xc: "complete_tour ?n start x"
    and xopt: "\<forall>t'. complete_tour ?n start t'
                \<longrightarrow> path_sum distance_matrix (x @ [start]) \<le> path_sum distance_matrix (t' @ [start])"
    by blast
  from bopt xc xopt bc
  have "path_sum distance_matrix (b @ [start]) = path_sum distance_matrix (x @ [start])"
    by (simp add: order_antisym)
  with b x show ?thesis by simp
qed

text \<open>
  The four-city scenario with \<open>start = 0\<close> satisfies the hypotheses of C4.
\<close>

theorem pruning_keeps_the_optimum_witness:
  "square four_cities \<and> nonneg four_cities \<and> valid_index (length four_cities) 0
   \<and> (\<exists>pruned_path exhaustive_path total.
           tsp_branch_and_bound four_cities 0 = Inr (pruned_path, Fin total)
         \<and> tsp_exhaustive four_cities 0 = Inr (exhaustive_path, Fin total))"
proof -
  have v: "valid_index (length four_cities) 0" by (simp add: valid_index_def length_four_cities)
  from pruning_keeps_the_optimum[OF square_four_cities nonneg_four_cities v]
    square_four_cities nonneg_four_cities v
  show ?thesis by blast
qed

text \<open>
  Non-negative entries are what makes the prune sound. With the entry \<open>-10\<close> below, the
  branch through city 2 is cut at the projected distance 5, which is not below the 3 of
  the first tour, and the tour of length \<open>-5\<close> behind it is missed.
\<close>

lemma pruning_needs_nonnegative_entries:
  "tsp_branch_and_bound [[0, 1, 5], [0, 0, 1], [1, - 10, 0]] 0 = Inr ([0, 1, 2, 0], Fin 3)
   \<and> tsp_exhaustive [[0, 1, 5], [0, 0, 1], [1, - 10, 0]] 0 = Inr ([0, 2, 1, 0], Fin (- 5))"
  by code_simp


end
